theory Spec2Isabelle
  imports Main "HOL-Library.Sublist"
begin

section \<open>Python strings\<close>

text \<open>
  A Python \<open>str\<close> is modelled as a \<open>string\<close>: a list of characters, a character being a
  code point below 256 (ASCII and Latin-1). \<open>s.startswith(p)\<close> is \<open>prefix p s\<close>,
  \<open>s.endswith(p)\<close> is \<open>suffix p s\<close> and \<open>p in s\<close> is \<open>sublist p s\<close>.
\<close>

text \<open>\<open>str.isspace\<close> on one character, which is also what \<open>\s\<close> of \<open>re\<close> matches.\<close>

definition is_space :: "char \<Rightarrow> bool" where
  "is_space c =
     (let n = (of_char c :: nat)
      in (9 \<le> n \<and> n \<le> 13) \<or> (28 \<le> n \<and> n \<le> 32) \<or> n = 133 \<or> n = 160)"

text \<open>What \<open>\w\<close> of \<open>re\<close> matches on a \<open>str\<close> pattern: alphanumeric characters and the underscore.\<close>

definition is_word :: "char \<Rightarrow> bool" where
  "is_word c =
     (let n = (of_char c :: nat)
      in (48 \<le> n \<and> n \<le> 57) \<or> (65 \<le> n \<and> n \<le> 90) \<or> n = 95 \<or> (97 \<le> n \<and> n \<le> 122)
         \<or> n = 170 \<or> n = 178 \<or> n = 179 \<or> n = 181 \<or> n = 185 \<or> n = 186
         \<or> (188 \<le> n \<and> n \<le> 190) \<or> (192 \<le> n \<and> n \<le> 214) \<or> (216 \<le> n \<and> n \<le> 246)
         \<or> (248 \<le> n \<and> n \<le> 255))"

text \<open>\<open>s.lstrip()\<close>, \<open>s.rstrip()\<close>, \<open>s.strip()\<close> and \<open>s.rstrip(chars)\<close>.\<close>

definition py_lstrip :: "string \<Rightarrow> string" where
  "py_lstrip s = dropWhile is_space s"

definition py_rstrip :: "string \<Rightarrow> string" where
  "py_rstrip s = rev (dropWhile is_space (rev s))"

definition py_strip :: "string \<Rightarrow> string" where
  "py_strip s = py_rstrip (py_lstrip s)"

definition py_rstrip_chars :: "string \<Rightarrow> string \<Rightarrow> string" where
  "py_rstrip_chars chars s = rev (dropWhile (\<lambda>c. c \<in> set chars) (rev s))"

text \<open>
  \<open>s.split(sep)\<close>: the pieces between the occurrences of \<open>sep\<close>, found from left to right
  without overlap. Python raises \<open>ValueError\<close> on an empty separator; every separator of
  the program is a non-empty constant, and the model returns \<open>[s]\<close> there.
\<close>

function py_split :: "string \<Rightarrow> string \<Rightarrow> string list" where
  "py_split sep [] = [[]]"
| "py_split sep (c # cs) =
     (if sep = [] then [c # cs]
      else if prefix sep (c # cs) then [] # py_split sep (drop (length sep) (c # cs))
      else (case py_split sep cs of [] \<Rightarrow> [[c]] | p # ps \<Rightarrow> (c # p) # ps))"
  by pat_completeness auto
termination
  by (relation "measure (\<lambda>(sep, s). length s)") auto

text \<open>
  \<open>s.replace(old, new)\<close>: every occurrence of \<open>old\<close>, from left to right without overlap.
  The program only replaces the constant \<open>http://\<close>; with an empty \<open>old\<close> the model
  returns \<open>s\<close>.
\<close>

function py_replace :: "string \<Rightarrow> string \<Rightarrow> string \<Rightarrow> string" where
  "py_replace old new [] = []"
| "py_replace old new (c # cs) =
     (if old \<noteq> [] \<and> prefix old (c # cs)
      then new @ py_replace old new (drop (length old) (c # cs))
      else c # py_replace old new cs)"
  by pat_completeness auto
termination
  by (relation "measure (\<lambda>(old, new, s). length s)") auto

section \<open>normalize_url\<close>

definition normalize_url :: "string \<Rightarrow> string" where
  "normalize_url user_input =
     (let url = py_strip user_input;
          url = py_rstrip_chars ''/'' url
      in if prefix ''https://cahier-de-prepa.fr/'' url then url @ ''/''
         else if prefix ''http://cahier-de-prepa.fr/'' url
           then py_replace ''http://'' ''https://'' url @ ''/''
         else if prefix ''cahier-de-prepa.fr/'' url then ''https://'' @ url @ ''/''
         else ''https://cahier-de-prepa.fr/'' @ url @ ''/'')"

section \<open>The link rewriter\<close>

text \<open>\<open>fix_link\<close>; the identifier of a link is \<open>href.split('id=')[-1].split('&')[0]\<close>.\<close>

definition param_value :: "string \<Rightarrow> string \<Rightarrow> string" where
  "param_value key href = hd (py_split ''&'' (last (py_split key href)))"

definition fix_link :: "string \<Rightarrow> string \<Rightarrow> string" where
  "fix_link href link_text =
     (if href = [] \<or> prefix ''#'' href \<or> prefix ''javascript:'' href then href
      else if prefix ''assets/'' href \<or> prefix ''fichiers/'' href then href
      else if sublist ''download?id='' href then ''fichiers/'' @ param_value ''id='' href
      else if sublist ''docs?rep='' href then ''docs_rep_'' @ param_value ''rep='' href @ ''.html''
      else if prefix ''?rep='' href then ''docs_rep_'' @ param_value ''rep='' href @ ''.html''
      else if href \<in> set [''.'', ''./'', ''index'', ''index.html''] then ''index.html''
      else if href \<in> set [''docs'', ''docs.html''] then ''docs.html''
      else if href \<in> set [''recent'', ''agenda'', ''mail'', ''notescolles'', ''prefs'', ''blogcdp'']
        then ''#''
      else if prefix ''notescolles?'' href \<or> prefix ''.?'' href then ''#''
      else href)"

text \<open>
  \<open>fix_html_links\<close> works on the pages as BeautifulSoup parses them. A parsed page is
  modelled by the attribute values the pass reads and writes: the \<open>href\<close> of every
  \<open>link rel="stylesheet"\<close> element (\<open>None\<close> when the attribute is absent), the \<open>src\<close> of
  every \<open>script\<close> element that has one, and the \<open>href\<close> and text of every \<open>a\<close> element that
  has an \<open>href\<close>. Parsing and serialisation are BeautifulSoup's.
\<close>

record html_page =
  stylesheets :: "string option list"
  scripts :: "string list"
  anchors :: "(string \<times> string) list"

definition css_to_fix :: "string option \<Rightarrow> bool" where
  "css_to_fix href = (case href of None \<Rightarrow> False | Some old_href \<Rightarrow> old_href \<noteq> [] \<and> prefix ''css/'' old_href)"

definition fix_stylesheet :: "string option \<Rightarrow> string option" where
  "fix_stylesheet href = (if css_to_fix href then Some (''assets/'' @ the href) else href)"

definition fix_script :: "string \<Rightarrow> string" where
  "fix_script old_src = (if prefix ''js/'' old_src then ''assets/'' @ old_src else old_src)"

definition fix_anchor :: "string \<times> string \<Rightarrow> string \<times> string" where
  "fix_anchor a =
     (let old_href = fst a; new_href = fix_link old_href (snd a)
      in if new_href \<noteq> old_href then (new_href, snd a) else a)"

text \<open>
  The body of the loop of \<open>fix_html_links\<close> for one file: the page as it is on disk
  afterwards (written back only when something was fixed), \<open>links_fixed\<close> and
  \<open>assets_fixed\<close>.
\<close>

definition fix_page :: "html_page \<Rightarrow> html_page \<times> nat \<times> nat" where
  "fix_page p =
     (let assets_fixed = length (filter css_to_fix (stylesheets p))
                         + length (filter (prefix ''js/'') (scripts p));
          links_fixed = length (filter (\<lambda>a. fix_link (fst a) (snd a) \<noteq> fst a) (anchors p));
          soup = p\<lparr>stylesheets := map fix_stylesheet (stylesheets p),
                   scripts := map fix_script (scripts p),
                   anchors := map fix_anchor (anchors p)\<rparr>
      in (if links_fixed > 0 \<or> assets_fixed > 0 then soup else p, links_fixed, assets_fixed))"

text \<open>The whole pass: the files afterwards, \<open>total_assets\<close> and \<open>total_links\<close>.\<close>

fun fix_html_links ::
  "(string \<times> html_page) list \<Rightarrow> (string \<times> html_page) list \<times> nat \<times> nat" where
  "fix_html_links [] = ([], 0, 0)"
| "fix_html_links ((html_file, p) # html_files) =
     (case fix_page p of (p', links_fixed, assets_fixed) \<Rightarrow>
        (case fix_html_links html_files of (files', total_assets, total_links) \<Rightarrow>
           ((html_file, p') # files', total_assets + assets_fixed, total_links + links_fixed)))"

section \<open>File names\<close>

text \<open>
  The title of a file made into a file name, as \<open>download_file\<close> does first:
  \<open>re.sub(r'[^\w\s\-\.]', '', title)\<close>, then \<open>re.sub(r'\s+', ' ', ...).strip()\<close>, then the
  cut at 200 characters.
\<close>

function collapse_ws :: "string \<Rightarrow> string" where
  "collapse_ws [] = []"
| "collapse_ws (c # cs) =
     (if is_space c then CHR '' '' # collapse_ws (dropWhile is_space cs)
      else c # collapse_ws cs)"
  by pat_completeness auto
termination
  by (relation "measure length") (auto simp: length_dropWhile_le less_Suc_eq_le)

definition clean_title :: "string \<Rightarrow> string" where
  "clean_title title =
     (let safe_title = filter (\<lambda>c. is_word c \<or> is_space c \<or> c = CHR ''-'' \<or> c = CHR ''.'') title;
          safe_title = py_strip (collapse_ws safe_title)
      in if length safe_title > 200 then take 197 safe_title @ ''...'' else safe_title)"

text \<open>
  \<open>Path(p).suffix\<close> of pathlib: the part of the last component of the path from its last
  dot on, when that dot is neither its first nor its last character.
\<close>

definition path_name :: "string \<Rightarrow> string" where
  "path_name p = last (py_split ''/'' p)"

definition rfind :: "string \<Rightarrow> char \<Rightarrow> nat option" where
  "rfind s c =
     (if c \<in> set s then Some (length s - 1 - length (takeWhile (\<lambda>x. x \<noteq> c) (rev s))) else None)"

definition path_suffix :: "string \<Rightarrow> string" where
  "path_suffix p =
     (let name = path_name p
      in case rfind name CHR ''.'' of
           None \<Rightarrow> []
         | Some i \<Rightarrow> if 0 < i \<and> i + 1 < length name then drop i name else [])"

text \<open>The extension of the downloaded file is added to the name unless it is there already.\<close>

definition final_name :: "string \<Rightarrow> string \<Rightarrow> string" where
  "final_name safe_title file_ext =
     (if \<not> suffix file_ext safe_title \<and> file_ext \<noteq> [] then safe_title @ file_ext
      else safe_title)"


section \<open>The state of a run and its environment\<close>

text \<open>
  The fields of \<open>SiteDownloader\<close> that change during a run, and what the run does to the
  outside: the HTML files written under the mirror root, the entries of \<open>fichiers/\<close>, and the
  trace of the calls of \<open>driver.get\<close> and of the pages written. Log lines are left out.
\<close>

datatype event = DriverGet string | WriteFile string

record repo_entry =
  fichier :: string
  nom_complet :: string
  url_originale :: string
  texte_clique :: string

text \<open>\<open>size_str\<close>: \<open>n octets\<close>, \<open>n Ko\<close> or \<open>n Mo\<close>.\<close>

datatype taille = Octets nat | Ko nat | Mo nat

record file_entry =
  fichier_reel :: string
  lien_symbolique :: string
  titre :: string
  repository :: string
  taille :: taille

text \<open>
  The exceptions caught at the end of \<open>download_file\<close>: no new file found, download
  incomplete, an exception of \<open>driver.get\<close> other than \<open>TimeoutException\<close>, an error of the
  file system; the last two with their message.
\<close>

datatype dl_error = NoNewFile | Incomplete | DriverError string | FsError string

datatype fentry = RegularFile nat | Symlink string

record state =
  visited_repos :: "string set"
  repo_mapping :: "string \<rightharpoonup> repo_entry"
  file_mapping :: "string \<rightharpoonup> file_entry"
  downloaded_files_count :: nat
  failed_files :: "(string \<times> string \<times> dl_error) list"
  repos_explored :: nat
  subpages_count :: nat
  output_dir :: "string \<rightharpoonup> string"
  fichiers_dir :: "string \<rightharpoonup> fentry"
  events :: "event list"

definition init_state :: state where
  "init_state =
     \<lparr>visited_repos = {}, repo_mapping = Map.empty, file_mapping = Map.empty,
      downloaded_files_count = 0, failed_files = [], repos_explored = 0, subpages_count = 0,
      output_dir = Map.empty, fichiers_dir = Map.empty, events = []\<rparr>"

text \<open>
  What the browser shows after \<open>driver.get(url)\<close>: the page source and the links the
  program looks up in it, each with its \<open>href\<close> attribute (\<open>None\<close> when absent) and its text:
  \<open>p.rep a\<close>, \<open>p.doc a\<close> and, in the menu, \<open>a.menurep\<close>.
\<close>

record page =
  page_source :: string
  rep_links :: "(string option \<times> string) list"
  doc_links :: "(string option \<times> string) list"
  menu_links :: "(string option \<times> string) list"

text \<open>
  What one call of \<open>download_file\<close> meets: the entries of the download directory before the
  download is triggered and the time then; the message of \<open>driver.get\<close> if it raises
  something else than \<open>TimeoutException\<close>; the entries of the directory, with their
  modification times, at each of the polls; the size of the file once moved; the message of
  \<open>shutil.move\<close> or \<open>stat\<close> if it raises, and of \<open>unlink\<close> or \<open>symlink_to\<close> if it raises.
  Times are integers.
\<close>

record dl_env =
  before_files :: "string list"
  before_time :: int
  get_error :: "string option"
  polls :: "nat \<Rightarrow> (string \<times> int) list"
  file_size :: nat
  move_error :: "string option"
  link_error :: "string option"

text \<open>
  The environment of a run: the constant fields \<open>base_url\<close> and \<open>test_mode\<close> of
  \<open>SiteDownloader\<close>, whether the login succeeds, what the browser shows for a URL, whether
  writing a page fails, and what a download meets; the last three may depend on the trace
  so far.
\<close>

record world =
  base_url :: string
  test_mode :: bool
  login_ok :: bool
  browser :: "event list \<Rightarrow> string \<Rightarrow> page"
  write_fails :: "event list \<Rightarrow> string \<Rightarrow> bool"
  download_env :: "event list \<Rightarrow> string \<Rightarrow> dl_env"

definition TEST_MAX_REPOS :: nat where "TEST_MAX_REPOS = 1"
definition TEST_MAX_SUBPAGES :: nat where "TEST_MAX_SUBPAGES = 10"
definition TEST_MAX_FILES :: nat where "TEST_MAX_FILES = 10"

text \<open>
  The names the program builds: the URL of a directory \<open>f"{self.base_url}docs?rep={repo_id}"\<close>,
  the file of its page \<open>f"docs_rep_{repo_id}.html"\<close>, and the URL that triggers a download
  \<open>f"{self.base_url}download?id={file_id}"\<close>.
\<close>

definition repo_url :: "world \<Rightarrow> string \<Rightarrow> string" where
  "repo_url w repo_id = base_url w @ ''docs?rep='' @ repo_id"

definition repo_filename :: "string \<Rightarrow> string" where
  "repo_filename repo_id = ''docs_rep_'' @ repo_id @ ''.html''"

definition download_url :: "world \<Rightarrow> string \<Rightarrow> string" where
  "download_url w file_id = base_url w @ ''download?id='' @ file_id"

section \<open>save_page\<close>

text \<open>Python's truth value of \<open>repo_id\<close>: neither \<open>None\<close> nor the empty string.\<close>

definition truthy :: "string option \<Rightarrow> bool" where
  "truthy repo_id = (case repo_id of None \<Rightarrow> False | Some d \<Rightarrow> d \<noteq> [])"

text \<open>
  \<open>save_page\<close>, on the page \<open>pg\<close> the browser shows; the result is the new state and the
  name of the file written under the mirror root, or \<open>None\<close>.
\<close>

definition save_page ::
  "world \<Rightarrow> page \<Rightarrow> string option \<Rightarrow> string \<Rightarrow> string \<Rightarrow> state \<Rightarrow> state \<times> string option" where
  "save_page w pg repo_id link_text url s =
     (if truthy repo_id \<and> the repo_id \<in> visited_repos s then (s, None)
      else
        let s1 = (if truthy repo_id
                  then s\<lparr>visited_repos := insert (the repo_id) (visited_repos s)\<rparr> else s);
            filename = (if truthy repo_id then repo_filename (the repo_id)
                        else if sublist ''docs'' url then ''docs.html'' else ''index.html'');
            html_content = page_source pg
        in if sublist ''icon-connexion'' html_content \<and> \<not> sublist ''icon-deconnexion'' html_content
           then (s1, None)
           else if write_fails w (events s1) filename then (s1, None)
           else
             let s2 = s1\<lparr>output_dir := (output_dir s1)(filename \<mapsto> html_content),
                         events := events s1 @ [WriteFile filename]\<rparr>
             in (if truthy repo_id
                 then s2\<lparr>repo_mapping := (repo_mapping s2)(the repo_id \<mapsto>
                        \<lparr>fichier = filename, nom_complet = link_text,
                         url_originale = ''docs?rep='' @ the repo_id,
                         texte_clique = link_text\<rparr>)\<rparr>
                 else s2,
                 Some filename))"

section \<open>download_file\<close>

text \<open>The entries of the download directory at poll \<open>i\<close> that were not there before.\<close>

definition new_entries :: "dl_env \<Rightarrow> nat \<Rightarrow> (string \<times> int) list" where
  "new_entries e i = filter (\<lambda>f. fst f \<notin> set (before_files e)) (polls e i)"

text \<open>
  \<open>new_files_list.sort(key=os.path.getmtime, reverse=True)\<close> and its first element: the
  sort is stable, so among the entries with the latest time the first of the list is taken.
\<close>

definition newest :: "(string \<times> int) list \<Rightarrow> string \<times> int" where
  "newest new_files_list = hd (rev (sort_key snd (rev new_files_list)))"

text \<open>
  The loop \<open>for _ in range(max_wait)\<close>, with the polls left, the number of the poll and
  \<open>latest_file\<close>.
\<close>

fun find_new_file :: "dl_env \<Rightarrow> nat \<Rightarrow> nat \<Rightarrow> string option \<Rightarrow> string option" where
  "find_new_file e 0 i latest_file = latest_file"
| "find_new_file e (Suc n) i latest_file =
     (let new_files = new_entries e i
      in if new_files \<noteq> []
         then (let l = newest new_files
               in if snd l \<ge> before_time e then Some (fst l)
                  else find_new_file e n (Suc i) (Some (fst l)))
         else find_new_file e n (Suc i) latest_file)"

text \<open>
  The loop \<open>while latest_file.suffix == '.part' and wait_count < 30\<close>; its body sleeps and
  counts, and the result is \<open>wait_count\<close>.
\<close>

function wait_part :: "string \<Rightarrow> nat \<Rightarrow> nat" where
  "wait_part latest_file wait_count =
     (if path_suffix latest_file = ''.part'' \<and> wait_count < 30
      then wait_part latest_file (wait_count + 1) else wait_count)"
  by pat_completeness auto
termination
  by (relation "measure (\<lambda>(latest_file, wait_count). 30 - wait_count)") auto

definition size_str :: "nat \<Rightarrow> taille" where
  "size_str sz =
     (if sz < 1024 then Octets sz
      else if sz < 1024 * 1024 then Ko (sz div 1024)
      else Mo (sz div (1024 * 1024)))"

text \<open>
  The body of the \<open>try\<close> of \<open>download_file\<close> after \<open>driver.get\<close> was called: the state it
  leaves and the exception it raises, if any.
\<close>

definition try_download ::
  "dl_env \<Rightarrow> string \<Rightarrow> string \<Rightarrow> string \<Rightarrow> state \<Rightarrow> state \<times> dl_error option" where
  "try_download e file_id title repo_name s =
     (case get_error e of
        Some msg \<Rightarrow> (s, Some (DriverError msg))
      | None \<Rightarrow>
         (case find_new_file e 30 0 None of
            None \<Rightarrow> (s, Some NoNewFile)
          | Some latest_file \<Rightarrow>
             (let wait_count = wait_part latest_file 0
              in if path_suffix latest_file = ''.part'' then (s, Some Incomplete)
                 else
                  (let file_ext = path_suffix latest_file;
                       safe_title = final_name (clean_title title) file_ext
                   in (case move_error e of
                         Some msg \<Rightarrow> (s, Some (FsError msg))
                       | None \<Rightarrow>
                          (let s1 = s\<lparr>fichiers_dir :=
                                      (fichiers_dir s)(safe_title \<mapsto> RegularFile (file_size e))\<rparr>
                           in (case link_error e of
                                 Some msg \<Rightarrow> (s1, Some (FsError msg))
                               | None \<Rightarrow>
                                  (s1\<lparr>fichiers_dir := (fichiers_dir s1)(file_id \<mapsto> Symlink safe_title),
                                      file_mapping := (file_mapping s1)(file_id \<mapsto>
                                        \<lparr>fichier_reel = safe_title, lien_symbolique = file_id,
                                         titre = title, repository = repo_name,
                                         taille = size_str (file_size e)\<rparr>),
                                      downloaded_files_count := downloaded_files_count s1 + 1\<rparr>,
                                   None))))))))"

definition download_file :: "world \<Rightarrow> string \<Rightarrow> string \<Rightarrow> string \<Rightarrow> state \<Rightarrow> state \<times> bool" where
  "download_file w file_id title repo_name s =
     (if test_mode w \<and> downloaded_files_count s \<ge> TEST_MAX_FILES then (s, False)
      else
        let e = download_env w (events s) file_id;
            s1 = s\<lparr>events := events s @ [DriverGet (download_url w file_id)]\<rparr>
        in case try_download e file_id title repo_name s1 of
             (s2, None) \<Rightarrow> (s2, True)
           | (s2, Some err) \<Rightarrow>
               (s2\<lparr>failed_files := failed_files s2 @ [(file_id, title, err)]\<rparr>, False))"

section \<open>explore_repository and download_all\<close>

text \<open>
  The links to sub-directories of a page. An element without \<open>href\<close> makes
  \<open>'rep=' in href\<close> raise, and the bare \<open>except\<close> then empties the list.
\<close>

fun sub_repo_links :: "(string option \<times> string) list \<Rightarrow> (string \<times> string) list option" where
  "sub_repo_links [] = Some []"
| "sub_repo_links ((None, text) # sub_repos) = None"
| "sub_repo_links ((Some href, text) # sub_repos) =
     (case sub_repo_links sub_repos of
        None \<Rightarrow> None
      | Some l \<Rightarrow> Some (if sublist ''rep='' href
                          then (param_value ''rep='' href, py_strip text) # l else l))"

definition sub_repo_list :: "page \<Rightarrow> (string \<times> string) list" where
  "sub_repo_list pg = (case sub_repo_links (rep_links pg) of None \<Rightarrow> [] | Some l \<Rightarrow> l)"

text \<open>
  The loop over the file links of a page; an element without \<open>href\<close> raises and ends the
  loop, the files before it having been downloaded.
\<close>

fun download_docs :: "world \<Rightarrow> string \<Rightarrow> (string option \<times> string) list \<Rightarrow> state \<Rightarrow> state" where
  "download_docs w link_text [] s = s"
| "download_docs w link_text ((None, text) # files) s = s"
| "download_docs w link_text ((Some href, text) # files) s =
     (if sublist ''download?id='' href
      then download_docs w link_text files
             (fst (download_file w (param_value ''id='' href) (py_strip text) link_text s))
      else download_docs w link_text files s)"

text \<open>
  The loop over \<open>sub_repo_list\<close>, given the function that explores one directory; \<open>None\<close>
  when an exploration does not return.
\<close>

fun explore_subs ::
  "(string \<Rightarrow> string \<Rightarrow> state \<Rightarrow> state option) \<Rightarrow> (string \<times> string) list \<Rightarrow> state \<Rightarrow> state option" where
  "explore_subs explore [] s = Some s"
| "explore_subs explore ((sub_id, sub_text) # rest) s =
     (if sub_id \<notin> visited_repos s
      then (case explore sub_id sub_text s of
              None \<Rightarrow> None
            | Some s' \<Rightarrow> explore_subs explore rest s')
      else explore_subs explore rest s)"

text \<open>
  \<open>explore_repository\<close>. The first argument bounds the depth of the recursion; the result
  is \<open>None\<close> when the bound is exceeded.
\<close>

fun explore_repository :: "nat \<Rightarrow> world \<Rightarrow> string \<Rightarrow> string \<Rightarrow> state \<Rightarrow> state option" where
  "explore_repository 0 w repo_id link_text s = None"
| "explore_repository (Suc depth) w repo_id link_text s =
     (if test_mode w \<and> subpages_count s \<ge> TEST_MAX_SUBPAGES then Some s
      else
        let url = repo_url w repo_id;
            s1 = s\<lparr>subpages_count := subpages_count s + 1,
                    events := events s @ [DriverGet url]\<rparr>;
            pg = browser w (events s1) url;
            s2 = fst (save_page w pg (Some repo_id) link_text url s1);
            s3 = download_docs w link_text (doc_links pg) s2
        in explore_subs (explore_repository depth w) (sub_repo_list pg) s3)"

text \<open>
  The links of the menu; here an element without \<open>href\<close> ends the loop and the directories
  found before it are kept.
\<close>

fun main_repo_links :: "(string option \<times> string) list \<Rightarrow> (string \<times> string) list" where
  "main_repo_links [] = []"
| "main_repo_links ((None, text) # repo_links) = []"
| "main_repo_links ((Some href, text) # repo_links) =
     (if sublist ''rep='' href
      then (param_value ''rep='' href, py_strip text) # main_repo_links repo_links
      else main_repo_links repo_links)"

text \<open>The loop of \<open>download_all\<close> over \<open>main_repos\<close>, with its \<open>break\<close> in test mode.\<close>

fun explore_main :: "nat \<Rightarrow> world \<Rightarrow> (string \<times> string) list \<Rightarrow> state \<Rightarrow> state option" where
  "explore_main depth w [] s = Some s"
| "explore_main depth w ((repo_id, text) # rest) s =
     (if test_mode w \<and> repos_explored s \<ge> TEST_MAX_REPOS then Some s
      else if repo_id \<notin> visited_repos s
      then (case explore_repository depth w repo_id text s of
              None \<Rightarrow> None
            | Some s' \<Rightarrow> explore_main depth w rest (s'\<lparr>repos_explored := repos_explored s' + 1\<rparr>))
      else explore_main depth w rest s)"

definition driver_get :: "string \<Rightarrow> state \<Rightarrow> state" where
  "driver_get url s = s\<lparr>events := events s @ [DriverGet url]\<rparr>"

text \<open>
  \<open>download_all\<close>: the final state and the value returned; \<open>login\<close> loads the home page
  and succeeds or not.
\<close>

definition download_all :: "nat \<Rightarrow> world \<Rightarrow> state \<Rightarrow> (state \<times> bool) option" where
  "download_all depth w s =
     (let s = driver_get (base_url w) s
      in if \<not> login_ok w then Some (s, False)
         else
           let s = driver_get (base_url w @ ''docs'') s;
               s = driver_get (base_url w) s;
               s = fst (save_page w (browser w (events s) (base_url w)) None [] (base_url w) s);
               s = driver_get (base_url w @ ''docs'') s;
               pg = browser w (events s) (base_url w @ ''docs'');
               s = fst (save_page w pg None [] (base_url w @ ''docs'') s);
               main_repos = main_repo_links (menu_links pg)
           in case explore_main depth w main_repos s of
                None \<Rightarrow> None
              | Some s' \<Rightarrow> Some (s', True))"

section \<open>Invariant of the trace\<close>

text \<open>
  What holds of the trace between two explorations: for a non-empty identifier, its
  directory page was loaded at most once and written at most once, and only if the
  identifier is in \<open>visited_repos\<close>; and every entry of \<open>repo_mapping\<close> names the file of its
  directory.
\<close>

definition trace_inv :: "world \<Rightarrow> state \<Rightarrow> bool" where
  "trace_inv w s =
     ((\<forall>d. d \<noteq> [] \<longrightarrow>
          count_list (events s) (DriverGet (repo_url w d)) \<le> 1
        \<and> count_list (events s) (WriteFile (repo_filename d)) \<le> 1
        \<and> (DriverGet (repo_url w d) \<in> set (events s) \<longrightarrow> d \<in> visited_repos s)
        \<and> (WriteFile (repo_filename d) \<in> set (events s) \<longrightarrow> d \<in> visited_repos s))
      \<and> (\<forall>d m. repo_mapping s d = Some m \<longrightarrow> fichier m = repo_filename d))"

section \<open>An example site\<close>

text \<open>
  A small site for the concrete runs: the menu lists the directories \<open>1\<close> and \<open>2\<close>; the page
  of \<open>1\<close> links twice to the directory \<open>5\<close> and once to the file \<open>F7\<close>; the page of \<open>2\<close>
  links to the same file \<open>F7\<close>; the page of \<open>5\<close> is empty. Every download puts a new file
  \<open>sujet.pdf\<close> of 2048 bytes in the download directory.
\<close>

definition example_page :: "string \<Rightarrow> page" where
  "example_page url =
     (if url = ''https://cahier-de-prepa.fr/mp/docs?rep=1''
      then \<lparr>page_source = ''icon-deconnexion'',
            rep_links = [(Some ''docs?rep=5'', ''TD''), (Some ''docs?rep=5'', ''TD'')],
            doc_links = [(Some ''download?id=F7'', ''Sujet'')], menu_links = []\<rparr>
      else if url = ''https://cahier-de-prepa.fr/mp/docs?rep=2''
      then \<lparr>page_source = ''icon-deconnexion'', rep_links = [],
            doc_links = [(Some ''download?id=F7'', ''Sujet'')], menu_links = []\<rparr>
      else if url = ''https://cahier-de-prepa.fr/mp/docs?rep=5''
      then \<lparr>page_source = ''icon-deconnexion'', rep_links = [], doc_links = [], menu_links = []\<rparr>
      else \<lparr>page_source = ''icon-deconnexion'', rep_links = [], doc_links = [],
            menu_links = [(Some ''docs?rep=1'', ''Maths''), (Some ''docs?rep=2'', ''Physique'')]\<rparr>)"

definition example_dl :: dl_env where
  "example_dl =
     \<lparr>before_files = [''/dl/old.txt''], before_time = 100, get_error = None,
      polls = (\<lambda>i. [(''/dl/old.txt'', 50), (''/dl/sujet.pdf'', 101)]),
      file_size = 2048, move_error = None, link_error = None\<rparr>"

definition example_world :: world where
  "example_world =
     \<lparr>base_url = ''https://cahier-de-prepa.fr/mp/'', test_mode = False, login_ok = True,
      browser = (\<lambda>tr. example_page), write_fails = (\<lambda>tr f. False),
      download_env = (\<lambda>tr f. example_dl)\<rparr>"

text \<open>A page served to a session that is no longer logged in.\<close>

definition logged_out_page :: page where
  "logged_out_page =
     \<lparr>page_source = ''icon-connexion'', rep_links = [], doc_links = [], menu_links = []\<rparr>"

text \<open>
  A download whose file is still \<open>cours.pdf.part\<close> at the first poll and is complete, as
  \<open>cours.pdf\<close>, from the second poll on.
\<close>

definition part_dl :: dl_env where
  "part_dl =
     \<lparr>before_files = [''/dl/old.txt''], before_time = 100, get_error = None,
      polls = (\<lambda>i. if i = 0 then [(''/dl/old.txt'', 50), (''/dl/cours.pdf.part'', 101)]
                    else [(''/dl/old.txt'', 50), (''/dl/cours.pdf'', 102)]),
      file_size = 2048, move_error = None, link_error = None\<rparr>"

definition part_world :: world where
  "part_world = example_world\<lparr>download_env := (\<lambda>tr f. part_dl)\<rparr>"

text \<open>A download that never puts a file in the download directory.\<close>

definition silent_dl :: dl_env where
  "silent_dl =
     \<lparr>before_files = [''/dl/old.txt''], before_time = 100, get_error = None,
      polls = (\<lambda>i. [(''/dl/old.txt'', 50)]),
      file_size = 0, move_error = None, link_error = None\<rparr>"

definition silent_world :: world where
  "silent_world = example_world\<lparr>download_env := (\<lambda>tr f. silent_dl)\<rparr>"

declare py_split.simps [simp del] py_replace.simps [simp del]

lemma py_split_not_Nil: "py_split sep s \<noteq> []"
  by (induction sep s rule: py_split.induct) (auto simp: py_split.simps split: list.splits)

lemma py_split_no_sep: "sep \<noteq> [] \<Longrightarrow> \<not> sublist sep s \<Longrightarrow> py_split sep s = [s]"
proof (induction sep s rule: py_split.induct)
  case (1 sep)
  show ?case by (simp add: py_split.simps)
next
  case (2 sep c cs)
  from "2.prems" have np: "\<not> prefix sep (c # cs)" and ns: "\<not> sublist sep cs"
    by (auto simp: sublist_Cons_right)
  with "2.IH"(2) "2.prems" have "py_split sep cs = [cs]" by simp
  with np "2.prems" show ?case by (simp add: py_split.simps)
qed

lemma py_split_single: "sep \<noteq> [] \<Longrightarrow> py_split sep s = [p] \<Longrightarrow> p = s \<and> \<not> sublist sep s"
proof (induction sep s arbitrary: p rule: py_split.induct)
  case (1 sep)
  then show ?case by (simp add: py_split.simps)
next
  case (2 sep c cs)
  show ?case
  proof (cases "prefix sep (c # cs)")
    case True
    with "2.prems" py_split_not_Nil [of sep "drop (length sep) (c # cs)"] show ?thesis
      by (simp add: py_split.simps)
  next
    case False
    with "2.prems" py_split_not_Nil [of sep cs]
    obtain q where q: "py_split sep cs = [q]" and p: "p = c # q"
      by (auto simp: py_split.simps split: list.splits)
    from "2.IH"(2) "2.prems"(1) False q have "q = cs" and "\<not> sublist sep cs" by simp_all
    with p False show ?thesis by (simp add: sublist_Cons_right)
  qed
qed

lemma last_py_split:
  "sep \<noteq> [] \<Longrightarrow> suffix (last (py_split sep s)) s \<and> \<not> sublist sep (last (py_split sep s))"
proof (induction sep s rule: py_split.induct)
  case (1 sep)
  then show ?case by (simp add: py_split.simps)
next
  case (2 sep c cs)
  show ?case
  proof (cases "prefix sep (c # cs)")
    case True
    let ?r = "drop (length sep) (c # cs)"
    from True "2.prems" have eq: "last (py_split sep (c # cs)) = last (py_split sep ?r)"
      by (simp add: py_split.simps py_split_not_Nil)
    from "2.IH"(1) "2.prems" True have "suffix (last (py_split sep ?r)) ?r"
      and n: "\<not> sublist sep (last (py_split sep ?r))" by simp_all
    then have "suffix (last (py_split sep ?r)) (c # cs)"
      using suffix_drop suffix_order.trans by blast
    with n eq show ?thesis by simp
  next
    case False
    obtain q qs where q: "py_split sep cs = q # qs"
      using py_split_not_Nil [of sep cs] by (cases "py_split sep cs") auto
    show ?thesis
    proof (cases qs)
      case Nil
      with q py_split_single [OF "2.prems", of cs q] have "q = cs" and "\<not> sublist sep cs" by simp_all
      with q Nil False "2.prems" show ?thesis by (simp add: py_split.simps sublist_Cons_right)
    next
      case (Cons a as)
      with q False "2.prems" have "last (py_split sep (c # cs)) = last (py_split sep cs)"
        by (simp add: py_split.simps)
      with "2.IH"(2) "2.prems" False show ?thesis by (simp add: suffix_Cons)
    qed
  qed
qed

lemma hd_py_split: "prefix (hd (py_split sep s)) s"
proof (induction sep s rule: py_split.induct)
  case (1 sep)
  then show ?case by (simp add: py_split.simps)
next
  case (2 sep c cs)
  then show ?case
    using py_split_not_Nil [of sep cs]
    by (cases "py_split sep cs") (auto simp: py_split.simps)
qed

lemma sublist_append_last:
  assumes "sublist xs (r @ t)" and "xs \<noteq> []" and "last xs \<notin> set t"
  shows "sublist xs r"
proof -
  from assms(1) obtain ps ss where eq: "r @ t = (ps @ xs) @ ss" by (auto simp: sublist_def)
  from append_eq_append_conv2 [THEN iffD1, OF eq]
  obtain us where us: "r = (ps @ xs) @ us \<and> us @ t = ss \<or> r @ us = ps @ xs \<and> t = us @ ss"
    by blast
  show ?thesis
  proof (cases "us = []")
    case True
    with us have "r = ps @ xs" by auto
    then show ?thesis by simp
  next
    case False
    show ?thesis
    proof (cases "r = (ps @ xs) @ us")
      case True
      then show ?thesis by simp
    next
      case n: False
      with us have a: "r @ us = ps @ xs" and b: "t = us @ ss" by auto
      from a False assms(2) have "last us = last xs"
        by (metis last_appendR)
      with False b assms(3) show ?thesis by (metis last_in_set Un_iff set_append)
    qed
  qed
qed

lemma param_value_sublist: "sublist (param_value key href) href"
proof -
  have "prefix (param_value key href) (last (py_split key href))"
    unfolding param_value_def by (rule hd_py_split)
  moreover have "suffix (last (py_split key href)) href"
  proof (cases "key = []")
    case True
    then show ?thesis by (cases href) (simp_all add: py_split.simps)
  next
    case False
    then show ?thesis by (simp add: last_py_split)
  qed
  ultimately show ?thesis
    by (meson prefix_imp_sublist suffix_imp_sublist sublist_order.order_trans)
qed

lemma param_value_no_key: "key \<noteq> [] \<Longrightarrow> \<not> sublist key (param_value key href)"
proof
  assume k: "key \<noteq> []" and s: "sublist key (param_value key href)"
  have "sublist (param_value key href) (last (py_split key href))"
    unfolding param_value_def by (rule prefix_imp_sublist [OF hd_py_split])
  with s have "sublist key (last (py_split key href))"
    by (rule sublist_order.order_trans)
  with last_py_split [OF k, of href] show False by simp
qed

lemma fix_link_fichiers: "fix_link (''fichiers/'' @ x) t = ''fichiers/'' @ x"
  by (simp add: fix_link_def)

lemma fix_link_docs_rep:
  assumes "\<not> sublist ''download?id='' r" and "\<not> sublist ''rep='' r"
  shows "fix_link (''docs_rep_'' @ r @ ''.html'') t = ''docs_rep_'' @ r @ ''.html''"
proof -
  have a: "\<not> sublist ''download?id='' (r @ ''.html'')"
    using assms(1) sublist_append_last [of "''download?id=''" r "''.html''"] by auto
  have "\<not> sublist ''rep='' (r @ ''.html'')"
    using assms(2) sublist_append_last [of "''rep=''" r "''.html''"] by auto
  moreover have "sublist ''rep='' ''docs?rep=''" by (simp add: sublist_code)
  ultimately have b: "\<not> sublist ''docs?rep='' (r @ ''.html'')"
    using sublist_order.order_trans by blast
  show ?thesis
    using a b by (simp add: fix_link_def sublist_Cons_right)
qed

lemma fix_link_text: "fix_link h t = fix_link h t'"
  by (simp add: fix_link_def)

lemma fix_link_index: "fix_link ''index.html'' t = ''index.html''"
  by (simp add: fix_link_def sublist_code)

lemma fix_link_docs: "fix_link ''docs.html'' t = ''docs.html''"
  by (simp add: fix_link_def sublist_code)

lemma fix_link_hash: "fix_link ''#'' t = ''#''"
  by (simp add: fix_link_def)

lemma fix_link_cases:
  obtains (unchanged) "fix_link h t = h"
  | (tofile) "sublist ''download?id='' h" "fix_link h t = ''fichiers/'' @ param_value ''id='' h"
  | (torep) "\<not> sublist ''download?id='' h" "sublist ''docs?rep='' h \<or> prefix ''?rep='' h"
      "fix_link h t = ''docs_rep_'' @ param_value ''rep='' h @ ''.html''"
  | (toindex) "h \<in> set [''.'', ''./'', ''index'', ''index.html'']" "fix_link h t = ''index.html''"
  | (todocs) "h \<in> set [''docs'', ''docs.html'']" "fix_link h t = ''docs.html''"
  | (tohash) "h \<in> set [''recent'', ''agenda'', ''mail'', ''notescolles'', ''prefs'', ''blogcdp'']
       \<or> prefix ''notescolles?'' h \<or> prefix ''.?'' h" "fix_link h t = ''#''"
proof (cases "h = [] \<or> prefix ''#'' h \<or> prefix ''javascript:'' h")
  case True
  then have "fix_link h t = h" by (simp only: fix_link_def if_True)
  then show ?thesis by (rule unchanged)
next
  case n1: False
  show ?thesis
  proof (cases "prefix ''assets/'' h \<or> prefix ''fichiers/'' h")
    case True
    with n1 have "fix_link h t = h" by (simp only: fix_link_def if_True if_False)
    then show ?thesis by (rule unchanged)
  next
    case n2: False
    show ?thesis
    proof (cases "sublist ''download?id='' h")
      case True
      with n1 n2 have "fix_link h t = ''fichiers/'' @ param_value ''id='' h"
        by (simp only: fix_link_def if_True if_False)
      with True show ?thesis by (rule tofile)
    next
      case n3: False
      show ?thesis
      proof (cases "sublist ''docs?rep='' h")
        case True
        with n1 n2 n3 have "fix_link h t = ''docs_rep_'' @ param_value ''rep='' h @ ''.html''"
          by (simp only: fix_link_def if_True if_False)
        with n3 True show ?thesis by (intro torep) simp_all
      next
        case n4: False
        show ?thesis
        proof (cases "prefix ''?rep='' h")
          case True
          with n1 n2 n3 n4 have "fix_link h t = ''docs_rep_'' @ param_value ''rep='' h @ ''.html''"
            by (simp only: fix_link_def if_True if_False)
          with n3 True show ?thesis by (intro torep) simp_all
        next
          case n5: False
          show ?thesis
          proof (cases "h \<in> set [''.'', ''./'', ''index'', ''index.html'']")
            case True
            with n1 n2 n3 n4 n5 have "fix_link h t = ''index.html''"
              by (simp only: fix_link_def if_True if_False)
            with True show ?thesis by (rule toindex)
          next
            case n6: False
            show ?thesis
            proof (cases "h \<in> set [''docs'', ''docs.html'']")
              case True
              with n1 n2 n3 n4 n5 n6 have "fix_link h t = ''docs.html''"
                by (simp only: fix_link_def if_True if_False)
              with True show ?thesis by (rule todocs)
            next
              case n7: False
              show ?thesis
              proof (cases "h \<in> set [''recent'', ''agenda'', ''mail'', ''notescolles'', ''prefs'', ''blogcdp'']")
                case True
                with n1 n2 n3 n4 n5 n6 n7 have "fix_link h t = ''#''"
                  by (simp only: fix_link_def if_True if_False)
                with True show ?thesis by (intro tohash) simp_all
              next
                case n8: False
                show ?thesis
                proof (cases "prefix ''notescolles?'' h \<or> prefix ''.?'' h")
                  case True
                  with n1 n2 n3 n4 n5 n6 n7 n8 have "fix_link h t = ''#''"
                    by (simp only: fix_link_def if_True if_False)
                  with True show ?thesis by (intro tohash) simp_all
                next
                  case False
                  with n1 n2 n3 n4 n5 n6 n7 n8 have "fix_link h t = h"
                    by (simp only: fix_link_def if_True if_False)
                  then show ?thesis by (rule unchanged)
                qed
              qed
            qed
          qed
        qed
      qed
    qed
  qed
qed

lemma fix_link_idem: "fix_link (fix_link h t) t' = fix_link h t"
proof (cases rule: fix_link_cases [of h t])
  case unchanged
  with fix_link_text [of h t' t] show ?thesis by simp
next
  case tofile
  then show ?thesis by (simp only: fix_link_fichiers)
next
  case torep
  let ?r = "param_value ''rep='' h"
  have a: "\<not> sublist ''rep='' ?r" by (simp add: param_value_no_key)
  have b: "\<not> sublist ''download?id='' ?r"
    using torep(1) param_value_sublist [of "''rep=''" h] sublist_order.order_trans by blast
  show ?thesis by (simp only: torep(3) fix_link_docs_rep [OF b a])
next
  case toindex
  then show ?thesis by (simp only: fix_link_index)
next
  case todocs
  then show ?thesis by (simp only: fix_link_docs)
next
  case tohash
  then show ?thesis by (simp only: fix_link_hash)
qed

lemma py_split_amp: "CHR ''&'' \<notin> set x \<Longrightarrow> py_split ''&'' x = [x]"
  by (rule py_split_no_sep) (auto simp: sublist_def)

lemma param_value_exact:
  assumes "CHR ''&'' \<notin> set v" and "\<not> sublist key v" and "key \<noteq> []"
    and "py_split key (pre @ v) = [p, v]"
  shows "param_value key (pre @ v) = v"
  using assms by (simp add: param_value_def py_split_amp)

text \<open>
  Claim C4. An href \<open>docs?rep=r\<close>, or the relative \<open>?rep=r\<close>, is rewritten to exactly
  \<open>docs_rep_r.html\<close>, and an href \<open>download?id=f\<close> to exactly \<open>fichiers/f\<close>, the alias form.
  The identifiers are tokens as the program extracts them: no \<open>&\<close>, no further \<open>rep=\<close>
  (or \<open>id=\<close>) inside, and a directory identifier does not itself hold \<open>download?id=\<close>.
\<close>

theorem fix_link_identifiers:
  assumes "CHR ''&'' \<notin> set r" and "\<not> sublist ''rep='' r" and "\<not> sublist ''download?id='' r"
    and "CHR ''&'' \<notin> set f" and "\<not> sublist ''id='' f"
  shows "fix_link (''docs?rep='' @ r) t = ''docs_rep_'' @ r @ ''.html''
       \<and> fix_link (''?rep='' @ r) t = ''docs_rep_'' @ r @ ''.html''
       \<and> fix_link (''download?id='' @ f) t = ''fichiers/'' @ f"
proof (intro conjI)
  have pr: "param_value ''rep='' (''docs?rep='' @ r) = r"
    using assms(1,2) by (simp add: param_value_def py_split.simps py_split_no_sep py_split_amp)
  have pr': "param_value ''rep='' (''?rep='' @ r) = r"
    using assms(1,2) by (simp add: param_value_def py_split.simps py_split_no_sep py_split_amp)
  have pf: "param_value ''id='' (''download?id='' @ f) = f"
    using assms(4,5) by (simp add: param_value_def py_split.simps py_split_no_sep py_split_amp)
  have a: "\<not> sublist ''download?id='' (''docs?rep='' @ r)"
    using assms(3) by (simp add: sublist_Cons_right)
  have a': "\<not> sublist ''download?id='' (''?rep='' @ r)"
    using assms(3) by (simp add: sublist_Cons_right)
  have b: "sublist ''docs?rep='' (''docs?rep='' @ r)" by simp
  have c: "sublist ''download?id='' (''download?id='' @ f)" by simp
  show "fix_link (''docs?rep='' @ r) t = ''docs_rep_'' @ r @ ''.html''"
    unfolding fix_link_def pr using a b by simp
  show "fix_link (''?rep='' @ r) t = ''docs_rep_'' @ r @ ''.html''"
    unfolding fix_link_def pr' using a' by simp
  show "fix_link (''download?id='' @ f) t = ''fichiers/'' @ f"
    unfolding fix_link_def pf using c by simp
qed

text \<open>The hrefs of the specification: \<open>docs?rep=42\<close>, \<open>?rep=42\<close> and \<open>download?id=ABC123\<close>.\<close>

theorem fix_link_identifiers_witness:
  "fix_link ''docs?rep=42'' [] = ''docs_rep_42.html''
   \<and> fix_link ''?rep=42'' [] = ''docs_rep_42.html''
   \<and> fix_link ''download?id=ABC123'' [] = ''fichiers/ABC123''"
proof -
  have "CHR ''&'' \<notin> set ''42''" "\<not> sublist ''rep='' ''42''" "\<not> sublist ''download?id='' ''42''"
    "CHR ''&'' \<notin> set ''ABC123''" "\<not> sublist ''id='' ''ABC123''"
    by (simp_all add: sublist_code)
  from fix_link_identifiers [OF this, of "[]"] show ?thesis by simp
qed

text \<open>
  Claim C6. Every href equal to one of \<open>recent\<close>, \<open>agenda\<close>, \<open>mail\<close>, \<open>notescolles\<close>,
  \<open>prefs\<close>, \<open>blogcdp\<close>, and every query-parameterised variant of any of them, is to be
  rewritten to \<open>#\<close>. The code does so for the six names and for the variants of
  \<open>notescolles\<close> only: at the href \<open>agenda?mois=2401\<close> it returns the href unchanged.
\<close>

theorem fix_link_query_variant_unchanged:
  "fix_link ''agenda?mois=2401'' [] = ''agenda?mois=2401''"
  by (simp add: fix_link_def sublist_code)

text \<open>
  What the code does for these endpoints: the six names go to \<open>#\<close>, and so does an href
  that starts with \<open>notescolles?\<close> or \<open>.?\<close> and carries neither \<open>download?id=\<close> nor
  \<open>docs?rep=\<close>.
\<close>

lemma fix_link_endpoint_consts:
  "fix_link ''recent'' t = ''#''" "fix_link ''agenda'' t = ''#''" "fix_link ''mail'' t = ''#''"
  "fix_link ''notescolles'' t = ''#''" "fix_link ''prefs'' t = ''#''" "fix_link ''blogcdp'' t = ''#''"
  by (simp_all add: fix_link_def sublist_code)

lemma fix_link_offline_endpoints:
  "(h \<in> set [''recent'', ''agenda'', ''mail'', ''notescolles'', ''prefs'', ''blogcdp'']
      \<longrightarrow> fix_link h t = ''#'')
   \<and> ((prefix ''notescolles?'' h \<or> prefix ''.?'' h)
        \<and> \<not> sublist ''download?id='' h \<and> \<not> sublist ''docs?rep='' h
      \<longrightarrow> fix_link h t = ''#'')"
proof (intro conjI impI)
  assume "h \<in> set [''recent'', ''agenda'', ''mail'', ''notescolles'', ''prefs'', ''blogcdp'']"
  then have "h = ''recent'' \<or> h = ''agenda'' \<or> h = ''mail'' \<or> h = ''notescolles''
    \<or> h = ''prefs'' \<or> h = ''blogcdp''" by simp
  then show "fix_link h t = ''#''"
    by (elim disjE) (simp_all only: fix_link_endpoint_consts)
next
  assume a: "(prefix ''notescolles?'' h \<or> prefix ''.?'' h)
        \<and> \<not> sublist ''download?id='' h \<and> \<not> sublist ''docs?rep='' h"
  then have "(\<exists>x. h = ''notescolles?'' @ x) \<or> (\<exists>x. h = ''.?'' @ x)"
    unfolding prefix_def by simp
  then show "fix_link h t = ''#''"
  proof (elim disjE exE)
    fix x assume "h = ''notescolles?'' @ x"
    with a show ?thesis unfolding fix_link_def by simp
  next
    fix x assume "h = ''.?'' @ x"
    with a show ?thesis unfolding fix_link_def by simp
  qed
qed

lemma fix_link_offline_endpoints_example:
  "fix_link ''recent'' [] = ''#'' \<and> fix_link ''notescolles?sem=2'' [] = ''#''"
proof -
  have "''recent'' \<in> set [''recent'', ''agenda'', ''mail'', ''notescolles'', ''prefs'', ''blogcdp'']"
    by simp
  moreover have "(prefix ''notescolles?'' ''notescolles?sem=2'' \<or> prefix ''.?'' ''notescolles?sem=2'')
        \<and> \<not> sublist ''download?id='' ''notescolles?sem=2'' \<and> \<not> sublist ''docs?rep='' ''notescolles?sem=2''"
    by (simp add: sublist_code)
  ultimately show ?thesis
    using fix_link_offline_endpoints [of "''recent''" "[]"]
      fix_link_offline_endpoints [of "''notescolles?sem=2''" "[]"] by simp
qed

lemma py_strip_id:
  assumes "s \<noteq> []" and "\<not> is_space (hd s)" and "\<not> is_space (last s)"
  shows "py_strip s = s"
proof -
  from assms(1,2) have "py_lstrip s = s" by (cases s) (simp_all add: py_lstrip_def)
  moreover from assms(1,3) have "py_rstrip s = s"
    by (cases s rule: rev_cases) (simp_all add: py_rstrip_def)
  ultimately show ?thesis by (simp add: py_strip_def)
qed

lemma py_rstrip_chars_snoc:
  assumes "x \<noteq> []" and "last x \<noteq> CHR ''/''"
  shows "py_rstrip_chars ''/'' (x @ ''/'') = x"
  using assms by (cases x rule: rev_cases) (simp_all add: py_rstrip_chars_def)

lemma py_rstrip_chars_last:
  "py_rstrip_chars ''/'' s \<noteq> [] \<Longrightarrow> last (py_rstrip_chars ''/'' s) \<noteq> CHR ''/''"
proof -
  assume a: "py_rstrip_chars ''/'' s \<noteq> []"
  let ?d = "dropWhile (\<lambda>c. c \<in> set ''/'') (rev s)"
  from a have "?d \<noteq> []" by (simp add: py_rstrip_chars_def)
  then have "\<not> (hd ?d \<in> set ''/'')" by (rule hd_dropWhile)
  moreover from \<open>?d \<noteq> []\<close> have "last (rev ?d) = hd ?d" by (simp add: last_rev)
  ultimately show ?thesis by (simp add: py_rstrip_chars_def)
qed

lemma py_strip_hd:
  "py_strip s \<noteq> [] \<Longrightarrow> \<not> is_space (hd (py_strip s))"
proof -
  assume a: "py_strip s \<noteq> []"
  let ?l = "py_lstrip s"
  from a have l: "?l \<noteq> []" by (auto simp: py_strip_def py_rstrip_def)
  then have h: "\<not> is_space (hd ?l)" unfolding py_lstrip_def by (rule hd_dropWhile)
  have "prefix (py_strip s) ?l"
    unfolding py_strip_def py_rstrip_def
    by (metis prefix_def rev_append rev_rev_ident takeWhile_dropWhile_id)
  with a have "hd (py_strip s) = hd ?l" by (auto simp: prefix_def)
  with h show ?thesis by simp
qed

lemma py_replace_no_occ: "\<not> sublist old s \<Longrightarrow> py_replace old new s = s"
proof (induction old new s rule: py_replace.induct)
  case (1 old new)
  then show ?case by (simp add: py_replace.simps)
next
  case (2 old new c cs)
  from "2.prems" have "\<not> prefix old (c # cs)" "\<not> sublist old cs"
    by (simp_all add: sublist_Cons_right)
  with "2.IH"(2) show ?case by (simp add: py_replace.simps)
qed

lemma py_replace_last:
  assumes "s \<noteq> []" and "old \<noteq> []" and "last s \<noteq> last old"
  shows "py_replace old new s \<noteq> [] \<and> last (py_replace old new s) = last s"
  using assms
proof (induction old new s rule: py_replace.induct)
  case (1 old new)
  then show ?case by simp
next
  case (2 old new c cs)
  show ?case
  proof (cases "prefix old (c # cs)")
    case True
    then obtain rest where r: "c # cs = old @ rest" by (auto simp: prefix_def)
    with "2.prems" have rn: "rest \<noteq> []" by auto
    from r have dr: "drop (length old) (c # cs) = rest" by (metis append_eq_conv_conj)
    from r rn have lr: "last rest = last (c # cs)" by (metis last_appendR)
    from "2.IH"(1) True "2.prems" dr rn lr
    have "py_replace old new rest \<noteq> [] \<and> last (py_replace old new rest) = last rest" by simp
    with True "2.prems"(2) dr lr show ?thesis by (simp add: py_replace.simps)
  next
    case False
    show ?thesis
    proof (cases "cs = []")
      case True
      with False show ?thesis by (simp add: py_replace.simps)
    next
      case n: False
      with "2.IH"(2) False "2.prems" have "py_replace old new cs \<noteq> [] \<and> last (py_replace old new cs) = last cs"
        by simp
      with False n show ?thesis by (simp add: py_replace.simps)
    qed
  qed
qed

lemma not_space_consts: "\<not> is_space CHR ''h''" "\<not> is_space CHR ''/''" "\<not> is_space CHR ''c''"
  by (simp_all add: is_space_def)

lemma py_rstrip_chars_id:
  assumes "x \<noteq> []" and "last x \<noteq> CHR ''/''"
  shows "py_rstrip_chars ''/'' x = x"
  using assms by (cases x rule: rev_cases) (simp_all add: py_rstrip_chars_def)

lemma normalize_url_suffix: "suffix ''/'' (normalize_url s)"
  by (simp add: normalize_url_def Let_def suffix_def)

lemma normalize_url_fixed:
  assumes "prefix ''https://cahier-de-prepa.fr/'' x" and "last x \<noteq> CHR ''/''"
  shows "normalize_url (x @ ''/'') = x @ ''/''"
proof -
  from assms(1) obtain y where x: "x = ''https://cahier-de-prepa.fr/'' @ y" by (auto simp: prefix_def)
  then have xn: "x \<noteq> []" and hx: "hd (x @ ''/'') = CHR ''h''" by simp_all
  have "py_strip (x @ ''/'') = x @ ''/''"
    by (rule py_strip_id) (simp_all add: hx not_space_consts)
  moreover have "py_rstrip_chars ''/'' (x @ ''/'') = x"
    using xn assms(2) by (rule py_rstrip_chars_snoc)
  ultimately show ?thesis using assms(1) by (simp only: normalize_url_def Let_def if_True)
qed

lemma normalize_url_shape:
  assumes "py_rstrip_chars ''/'' (py_strip s) \<noteq> []"
  shows "\<exists>x. normalize_url s = x @ ''/'' \<and> prefix ''https://cahier-de-prepa.fr/'' x \<and> last x \<noteq> CHR ''/''"
proof -
  let ?u = "py_rstrip_chars ''/'' (py_strip s)"
  have lu: "last ?u \<noteq> CHR ''/''" using assms by (rule py_rstrip_chars_last)
  show ?thesis
  proof (cases "prefix ''https://cahier-de-prepa.fr/'' ?u")
    case True
    then have "normalize_url s = ?u @ ''/''" by (simp only: normalize_url_def Let_def if_True)
    with True lu show ?thesis by blast
  next
    case n1: False
    show ?thesis
    proof (cases "prefix ''http://cahier-de-prepa.fr/'' ?u")
      case True
      let ?x = "py_replace ''http://'' ''https://'' ?u"
      from True n1 have e: "normalize_url s = ?x @ ''/''"
        by (simp only: normalize_url_def Let_def if_True if_False)
      from True obtain y where y: "?u = ''http://cahier-de-prepa.fr/'' @ y" by (auto simp: prefix_def)
      have "?x = ''https://cahier-de-prepa.fr/'' @ py_replace ''http://'' ''https://'' y"
        unfolding y by (simp add: py_replace.simps)
      then have p: "prefix ''https://cahier-de-prepa.fr/'' ?x" by (simp only: prefixI)
      have "last ?x = last ?u"
        using py_replace_last [OF assms, of "''http://''" "''https://''"] lu by simp
      with lu e p show ?thesis by metis
    next
      case n2: False
      show ?thesis
      proof (cases "prefix ''cahier-de-prepa.fr/'' ?u")
        case True
        let ?x = "''https://'' @ ?u"
        from True n1 n2 have e: "normalize_url s = ?x @ ''/''"
          by (simp only: normalize_url_def Let_def if_True if_False append_assoc)
        from True have p: "prefix ''https://cahier-de-prepa.fr/'' ?x" by (auto simp: prefix_def)
        from assms lu have "last ?x \<noteq> CHR ''/''" by simp
        with e p show ?thesis by blast
      next
        case False
        let ?x = "''https://cahier-de-prepa.fr/'' @ ?u"
        from False n1 n2 have e: "normalize_url s = ?x @ ''/''"
          by (simp only: normalize_url_def Let_def if_True if_False append_assoc)
        have p: "prefix ''https://cahier-de-prepa.fr/'' ?x" by (simp only: prefixI)
        from assms lu have "last ?x \<noteq> CHR ''/''" by simp
        with e p show ?thesis by blast
      qed
    qed
  qed
qed

lemma normalize_url_idem:
  assumes "py_rstrip_chars ''/'' (py_strip s) \<noteq> []"
  shows "normalize_url (normalize_url s) = normalize_url s"
proof -
  from normalize_url_shape [OF assms] obtain x where
    a: "normalize_url s = x @ ''/''" and b: "prefix ''https://cahier-de-prepa.fr/'' x"
    and c: "last x \<noteq> CHR ''/''"
    by blast
  show ?thesis by (simp only: a normalize_url_fixed [OF b c])
qed


lemma site_facts:
  assumes "site \<noteq> []" and "\<forall>c\<in>set site. \<not> is_space c \<and> c \<noteq> CHR ''/''"
  shows "\<not> is_space (hd site)" "\<not> is_space (last site)" "last site \<noteq> CHR ''/''"
    "\<not> sublist ''http://'' site" "\<not> prefix ''https://cahier-de-prepa.fr/'' site"
    "\<not> prefix ''http://cahier-de-prepa.fr/'' site" "\<not> prefix ''cahier-de-prepa.fr/'' site"
proof -
  from assms show "\<not> is_space (hd site)" "\<not> is_space (last site)" "last site \<noteq> CHR ''/''"
    by (simp_all add: hd_in_set last_in_set)
  from assms(2) have n: "CHR ''/'' \<notin> set site" by blast
  have "\<And>p. CHR ''/'' \<in> set p \<Longrightarrow> \<not> sublist p site"
    using n set_mono_sublist by blast
  then show "\<not> sublist ''http://'' site" by simp
  have "\<And>p. CHR ''/'' \<in> set p \<Longrightarrow> \<not> prefix p site"
    using n set_mono_prefix by blast
  then show "\<not> prefix ''https://cahier-de-prepa.fr/'' site"
    "\<not> prefix ''http://cahier-de-prepa.fr/'' site" "\<not> prefix ''cahier-de-prepa.fr/'' site"
    by simp_all
qed

lemma normalize_url_input:
  assumes "x \<noteq> []" and "\<not> is_space (hd x)" and "\<not> is_space (last x)" and "last x \<noteq> CHR ''/''"
    and "sl = [] \<or> sl = ''/''"
  shows "py_rstrip_chars ''/'' (py_strip (x @ sl)) = x"
proof -
  from assms(5) show ?thesis
  proof
    assume "sl = []"
    with assms show ?thesis by (simp add: py_strip_id py_rstrip_chars_id)
  next
    assume s: "sl = ''/''"
    have t: "py_strip (x @ ''/'') = x @ ''/''"
      using assms(1,2) by (intro py_strip_id) (simp_all add: not_space_consts)
    show ?thesis by (simp only: s t py_rstrip_chars_snoc [OF assms(1,4)])
  qed
qed

lemma normalize_url_via:
  assumes "py_rstrip_chars ''/'' (py_strip s) = u"
  shows "normalize_url s =
     (if prefix ''https://cahier-de-prepa.fr/'' u then u @ ''/''
      else if prefix ''http://cahier-de-prepa.fr/'' u
        then py_replace ''http://'' ''https://'' u @ ''/''
      else if prefix ''cahier-de-prepa.fr/'' u then ''https://'' @ u @ ''/''
      else ''https://cahier-de-prepa.fr/'' @ u @ ''/'')"
  by (simp only: normalize_url_def Let_def assms)

lemma normalize_url_documented:
  assumes "site \<noteq> []" and "\<forall>c\<in>set site. \<not> is_space c \<and> c \<noteq> CHR ''/''"
    and "sl = [] \<or> sl = ''/''"
  shows "normalize_url (''https://cahier-de-prepa.fr/'' @ site @ sl) = ''https://cahier-de-prepa.fr/'' @ site @ ''/''"
    and "normalize_url (''http://cahier-de-prepa.fr/'' @ site @ sl) = ''https://cahier-de-prepa.fr/'' @ site @ ''/''"
    and "normalize_url (''cahier-de-prepa.fr/'' @ site @ sl) = ''https://cahier-de-prepa.fr/'' @ site @ ''/''"
    and "normalize_url (site @ sl) = ''https://cahier-de-prepa.fr/'' @ site @ ''/''"
proof -
  note f = site_facts [OF assms(1,2)]
  have u1: "py_rstrip_chars ''/'' (py_strip ((''https://cahier-de-prepa.fr/'' @ site) @ sl)) = ''https://cahier-de-prepa.fr/'' @ site"
    using assms(1,3) f(2,3) by (intro normalize_url_input) (simp_all add: not_space_consts)
  have u2: "py_rstrip_chars ''/'' (py_strip ((''http://cahier-de-prepa.fr/'' @ site) @ sl)) = ''http://cahier-de-prepa.fr/'' @ site"
    using assms(1,3) f(2,3) by (intro normalize_url_input) (simp_all add: not_space_consts)
  have u3: "py_rstrip_chars ''/'' (py_strip ((''cahier-de-prepa.fr/'' @ site) @ sl)) = ''cahier-de-prepa.fr/'' @ site"
    using assms(1,3) f(2,3) by (intro normalize_url_input) (simp_all add: not_space_consts)
  have u4: "py_rstrip_chars ''/'' (py_strip (site @ sl)) = site"
    using assms(1,3) f(1,2,3) by (intro normalize_url_input)
  have r: "py_replace ''http://'' ''https://'' (''http://cahier-de-prepa.fr/'' @ site) = ''https://cahier-de-prepa.fr/'' @ site"
    using f(4) by (simp add: py_replace.simps py_replace_no_occ)
  show "normalize_url (''https://cahier-de-prepa.fr/'' @ site @ sl) = ''https://cahier-de-prepa.fr/'' @ site @ ''/''"
    using normalize_url_via [OF u1] by simp
  show "normalize_url (''http://cahier-de-prepa.fr/'' @ site @ sl) = ''https://cahier-de-prepa.fr/'' @ site @ ''/''"
    using normalize_url_via [OF u2] r by simp
  show "normalize_url (''cahier-de-prepa.fr/'' @ site @ sl) = ''https://cahier-de-prepa.fr/'' @ site @ ''/''"
    using normalize_url_via [OF u3] by simp
  show "normalize_url (site @ sl) = ''https://cahier-de-prepa.fr/'' @ site @ ''/''"
    using normalize_url_via [OF u4] f(5,6,7) by simp
qed

text \<open>
  Claim C10 as stated fails: on the empty input (or one made of blanks and slashes)
  \<open>normalize_url\<close> returns \<open>https://cahier-de-prepa.fr//\<close>, which a second application
  turns into \<open>https://cahier-de-prepa.fr/https://cahier-de-prepa.fr/\<close>.
\<close>

theorem normalize_url_idempotent_counterexample:
  "normalize_url (normalize_url []) \<noteq> normalize_url []"
  by code_simp

text \<open>
  Claim C10 (amended). \<open>normalize_url\<close> is total and its result always ends in \<open>/\<close>; it is
  idempotent on every input that is not empty once stripped of blanks and of its final
  slashes; and for a site name (not empty, no blank, no slash), with or without a final slash,
  the four documented shapes all give \<open>https://cahier-de-prepa.fr/<site>/\<close>.
\<close>

theorem normalize_url_amended:
  "suffix ''/'' (normalize_url s)
   \<and> (py_rstrip_chars ''/'' (py_strip s) \<noteq> []
        \<longrightarrow> normalize_url (normalize_url s) = normalize_url s)
   \<and> (site \<noteq> [] \<and> (\<forall>c\<in>set site. \<not> is_space c \<and> c \<noteq> CHR ''/'') \<and> (sl = [] \<or> sl = ''/'')
        \<longrightarrow> normalize_url (''https://cahier-de-prepa.fr/'' @ site @ sl) = ''https://cahier-de-prepa.fr/'' @ site @ ''/''
          \<and> normalize_url (''http://cahier-de-prepa.fr/'' @ site @ sl) = ''https://cahier-de-prepa.fr/'' @ site @ ''/''
          \<and> normalize_url (''cahier-de-prepa.fr/'' @ site @ sl) = ''https://cahier-de-prepa.fr/'' @ site @ ''/''
          \<and> normalize_url (site @ sl) = ''https://cahier-de-prepa.fr/'' @ site @ ''/'')"
  using normalize_url_suffix [of s] normalize_url_idem [of s]
    normalize_url_documented [of site sl]
  by (simp only: simp_thms) blast

theorem normalize_url_amended_witness:
  "normalize_url (normalize_url ''ma-classe'') = normalize_url ''ma-classe''
   \<and> normalize_url ''https://cahier-de-prepa.fr/ma-classe/'' = ''https://cahier-de-prepa.fr/ma-classe/''
   \<and> normalize_url ''http://cahier-de-prepa.fr/ma-classe/'' = ''https://cahier-de-prepa.fr/ma-classe/''
   \<and> normalize_url ''cahier-de-prepa.fr/ma-classe/'' = ''https://cahier-de-prepa.fr/ma-classe/''
   \<and> normalize_url ''ma-classe/'' = ''https://cahier-de-prepa.fr/ma-classe/''"
proof -
  have a: "py_rstrip_chars ''/'' (py_strip ''ma-classe'') \<noteq> []"
    by (simp add: py_rstrip_chars_def py_strip_def py_rstrip_def py_lstrip_def is_space_def)
  have b: "''ma-classe'' \<noteq> [] \<and> (\<forall>c\<in>set ''ma-classe''. \<not> is_space c \<and> c \<noteq> CHR ''/'')
           \<and> (''/'' = [] \<or> ''/'' = ''/'')"
    by (simp add: is_space_def)
  from a b normalize_url_amended [of "''ma-classe''" "''ma-classe''" "''/''"]
  show ?thesis by simp
qed

lemma fix_stylesheet_idem: "fix_stylesheet (fix_stylesheet h) = fix_stylesheet h"
  by (cases h) (simp_all add: fix_stylesheet_def css_to_fix_def)

lemma css_fixed: "\<not> css_to_fix (fix_stylesheet h)"
  by (cases h) (simp_all add: fix_stylesheet_def css_to_fix_def)

lemma fix_script_idem: "fix_script (fix_script s) = fix_script s"
  by (simp add: fix_script_def)

lemma js_fixed: "\<not> prefix ''js/'' (fix_script s)"
  by (simp add: fix_script_def)

lemma anchor_fixed: "fix_link (fst (fix_anchor a)) (snd (fix_anchor a)) = fst (fix_anchor a)"
  by (simp add: fix_anchor_def Let_def fix_link_idem)

lemma fix_anchor_idem: "fix_anchor (fix_anchor a) = fix_anchor a"
  using anchor_fixed [of a] by (simp add: fix_anchor_def [of "fix_anchor a"] Let_def)

lemma fix_page_none:
  assumes "filter css_to_fix (stylesheets p) = []" and "filter (prefix ''js/'') (scripts p) = []"
    and "filter (\<lambda>a. fix_link (fst a) (snd a) \<noteq> fst a) (anchors p) = []"
  shows "fix_page p = (p, 0, 0)"
  using assms by (simp add: fix_page_def)

lemma fix_page_fixed: "fix_page (fst (fix_page p)) = (fst (fix_page p), 0, 0)"
proof (cases "snd (fix_page p) = (0, 0)")
  case True
  then have a: "filter css_to_fix (stylesheets p) = []" "filter (prefix ''js/'') (scripts p) = []"
    "filter (\<lambda>a. fix_link (fst a) (snd a) \<noteq> fst a) (anchors p) = []"
    by (simp_all add: fix_page_def Let_def)
  then have "fix_page p = (p, 0, 0)" by (rule fix_page_none)
  then show ?thesis by simp
next
  case False
  let ?q = "p\<lparr>stylesheets := map fix_stylesheet (stylesheets p),
                   scripts := map fix_script (scripts p),
                   anchors := map fix_anchor (anchors p)\<rparr>"
  from False have q: "fst (fix_page p) = ?q" by (auto simp: fix_page_def Let_def)
  have "fix_page ?q = (?q, 0, 0)"
    by (rule fix_page_none) (simp_all add: filter_empty_conv css_fixed js_fixed anchor_fixed)
  with q show ?thesis by simp
qed


text \<open>
  Claim C5. Link rewriting is idempotent: \<open>fix_link\<close> applied to its own result returns
  it unchanged, whatever the href; a page that went through the pass is left as it is by a
  second pass, which reports no link and no asset fixed; and so is the whole set of files.
\<close>

theorem link_rewriting_idempotent:
  "fix_link (fix_link h t) t' = fix_link h t
   \<and> fix_page (fst (fix_page p)) = (fst (fix_page p), 0, 0)
   \<and> fst (fix_html_links (fst (fix_html_links fs))) = fst (fix_html_links fs)"
proof (intro conjI)
  show "fix_link (fix_link h t) t' = fix_link h t" by (rule fix_link_idem)
  show "fix_page (fst (fix_page p)) = (fst (fix_page p), 0, 0)" by (rule fix_page_fixed)
  show "fst (fix_html_links (fst (fix_html_links fs))) = fst (fix_html_links fs)"
  proof (induction fs)
    case Nil
    show ?case by simp
  next
    case (Cons f fs)
    obtain n p where f: "f = (n, p)" by (cases f)
    obtain p' l a where p: "fix_page p = (p', l, a)" by (cases "fix_page p")
    with fix_page_fixed [of p] have p': "fix_page p' = (p', 0, 0)" by simp
    obtain fs' ta tl where r: "fix_html_links fs = (fs', ta, tl)" by (cases "fix_html_links fs")
    obtain fs'' ta' tl' where r': "fix_html_links fs' = (fs'', ta', tl')" by (cases "fix_html_links fs'")
    from Cons.IH r r' have "fs'' = fs'" by simp
    with f p p' r r' show ?case by simp
  qed
qed

declare wait_part.simps [simp del] collapse_ws.simps [simp del]

lemma find_new_file_none:
  "(\<forall>i<n. new_entries e (k + i) = []) \<Longrightarrow> find_new_file e n k latest = latest"
proof (induction n arbitrary: k)
  case 0
  show ?case by simp
next
  case (Suc n)
  from Suc.prems have a: "new_entries e k = []" by (metis add.right_neutral zero_less_Suc)
  from Suc.prems have "\<forall>i<n. new_entries e (Suc k + i) = []"
    by (metis Suc_less_eq add_Suc_shift)
  then have "find_new_file e n (Suc k) latest = latest" by (rule Suc.IH)
  with a show ?case by simp
qed

lemma find_new_file_first:
  assumes "new_entries e k \<noteq> []" and "snd (newest (new_entries e k)) \<ge> before_time e"
  shows "find_new_file e (Suc n) k latest = Some (fst (newest (new_entries e k)))"
  using assms by (simp add: Let_def)

lemma try_download_cases:
  obtains (failed) err where "try_download e file_id title repo_name s = (s, Some err)"
  | (moved) msg safe_title where
      "try_download e file_id title repo_name s =
         (s\<lparr>fichiers_dir := (fichiers_dir s)(safe_title \<mapsto> RegularFile (file_size e))\<rparr>,
          Some (FsError msg))"
  | (stored) latest_file where "find_new_file e 30 0 None = Some latest_file"
      "try_download e file_id title repo_name s =
         (s\<lparr>fichiers_dir := (fichiers_dir s)
               (final_name (clean_title title) (path_suffix latest_file) \<mapsto> RegularFile (file_size e),
                file_id \<mapsto> Symlink (final_name (clean_title title) (path_suffix latest_file))),
             file_mapping := (file_mapping s)(file_id \<mapsto>
               \<lparr>fichier_reel = final_name (clean_title title) (path_suffix latest_file),
                lien_symbolique = file_id, titre = title, repository = repo_name,
                taille = size_str (file_size e)\<rparr>),
             downloaded_files_count := downloaded_files_count s + 1\<rparr>,
          None)"
proof (cases "get_error e")
  case (Some msg)
  then have "try_download e file_id title repo_name s = (s, Some (DriverError msg))"
    by (simp add: try_download_def)
  then show ?thesis by (rule failed)
next
  case g: None
  show ?thesis
  proof (cases "find_new_file e 30 0 None")
    case None
    with g have "try_download e file_id title repo_name s = (s, Some NoNewFile)"
      by (simp add: try_download_def)
    then show ?thesis by (rule failed)
  next
    case l: (Some latest_file)
    show ?thesis
    proof (cases "path_suffix latest_file = ''.part''")
      case True
      with g l have "try_download e file_id title repo_name s = (s, Some Incomplete)"
        by (simp add: try_download_def Let_def)
      then show ?thesis by (rule failed)
    next
      case p: False
      show ?thesis
      proof (cases "move_error e")
        case (Some msg)
        with g l p have "try_download e file_id title repo_name s = (s, Some (FsError msg))"
          by (simp add: try_download_def Let_def)
        then show ?thesis by (rule failed)
      next
        case m: None
        show ?thesis
        proof (cases "link_error e")
          case (Some msg)
          with g l p m show ?thesis
            by (intro moved [of "final_name (clean_title title) (path_suffix latest_file)" msg])
               (simp add: try_download_def Let_def)
        next
          case None
          with g l p m show ?thesis
            by (intro stored [of latest_file]) (simp_all add: try_download_def Let_def)
        qed
      qed
    qed
  qed
qed

lemma try_download_fields:
  assumes "try_download e file_id title repo_name s = (s', r)"
  shows "visited_repos s' = visited_repos s \<and> repo_mapping s' = repo_mapping s
    \<and> events s' = events s \<and> output_dir s' = output_dir s
    \<and> subpages_count s' = subpages_count s \<and> repos_explored s' = repos_explored s
    \<and> failed_files s' = failed_files s
    \<and> (\<forall>k. k \<noteq> file_id \<longrightarrow> file_mapping s' k = file_mapping s k)
    \<and> (r \<noteq> None \<longrightarrow> file_mapping s' = file_mapping s
          \<and> downloaded_files_count s' = downloaded_files_count s)"
  using assms by (cases rule: try_download_cases [of e file_id title repo_name s]) auto

lemma download_file_fields:
  assumes "download_file w file_id title repo_name s = (s', ok)"
  shows "visited_repos s' = visited_repos s \<and> repo_mapping s' = repo_mapping s
    \<and> output_dir s' = output_dir s
    \<and> subpages_count s' = subpages_count s \<and> repos_explored s' = repos_explored s
    \<and> (\<forall>k. k \<noteq> file_id \<longrightarrow> file_mapping s' k = file_mapping s k)
    \<and> (\<not> ok \<longrightarrow> file_mapping s' = file_mapping s)
    \<and> events s' = (if test_mode w \<and> downloaded_files_count s \<ge> TEST_MAX_FILES then events s
                  else events s @ [DriverGet (download_url w file_id)])"
proof (cases "test_mode w \<and> downloaded_files_count s \<ge> TEST_MAX_FILES")
  case True
  with assms show ?thesis by (simp add: download_file_def)
next
  case False
  let ?s1 = "s\<lparr>events := events s @ [DriverGet (download_url w file_id)]\<rparr>"
  let ?e = "download_env w (events s) file_id"
  obtain s2 r where t: "try_download ?e file_id title repo_name ?s1 = (s2, r)"
    by (cases "try_download ?e file_id title repo_name ?s1")
  note f = try_download_fields [OF t]
  show ?thesis
  proof (cases r)
    case None
    with assms False t have "s' = s2" "ok" by (simp_all add: download_file_def Let_def)
    with f False show ?thesis by simp
  next
    case (Some err)
    with assms False t have "s' = s2\<lparr>failed_files := failed_files s2 @ [(file_id, title, err)]\<rparr>" "\<not> ok"
      by (auto simp: download_file_def Let_def)
    with f False Some show ?thesis by simp
  qed
qed

lemma name_simps [simp]:
  "repo_url w d = repo_url w d' \<longleftrightarrow> d = d'"
  "repo_url w d \<noteq> download_url w f" "download_url w f \<noteq> repo_url w d"
  "repo_url w d \<noteq> base_url w" "repo_url w d \<noteq> base_url w @ ''docs''"
  "download_url w f = download_url w f' \<longleftrightarrow> f = f'"
  "repo_filename d = repo_filename d' \<longleftrightarrow> d = d'"
  "repo_filename d \<noteq> ''docs.html''" "repo_filename d \<noteq> ''index.html''"
  by (simp_all add: repo_url_def download_url_def repo_filename_def)

lemma trace_inv_init: "trace_inv w init_state"
  by (simp add: trace_inv_def init_state_def)

lemma trace_inv_same:
  assumes "trace_inv w s" and "events s' = events s" and "visited_repos s \<subseteq> visited_repos s'"
    and "repo_mapping s' = repo_mapping s"
  shows "trace_inv w s'"
  using assms unfolding trace_inv_def by (simp add: subset_iff)

lemma trace_inv_other:
  assumes "trace_inv w s" and "events s' = events s @ [ev]"
    and "\<forall>d. d \<noteq> [] \<longrightarrow> ev \<noteq> DriverGet (repo_url w d) \<and> ev \<noteq> WriteFile (repo_filename d)"
    and "visited_repos s' = visited_repos s" and "repo_mapping s' = repo_mapping s"
  shows "trace_inv w s'"
  using assms unfolding trace_inv_def by auto

lemma download_file_inv:
  assumes "trace_inv w s"
  shows "trace_inv w (fst (download_file w f t rn s))"
proof -
  obtain s' ok where d: "download_file w f t rn s = (s', ok)" by (cases "download_file w f t rn s")
  from download_file_fields [OF d]
  have v: "visited_repos s' = visited_repos s" and r: "repo_mapping s' = repo_mapping s"
    and e: "events s' = (if test_mode w \<and> downloaded_files_count s \<ge> TEST_MAX_FILES then events s
                  else events s @ [DriverGet (download_url w f)])"
    by blast+
  have "trace_inv w s'"
  proof (cases "test_mode w \<and> downloaded_files_count s \<ge> TEST_MAX_FILES")
    case True
    with e have "events s' = events s" by simp
    with assms show ?thesis using v r by (intro trace_inv_same [of w s s']) simp_all
  next
    case False
    with e have "events s' = events s @ [DriverGet (download_url w f)]" by simp
    with assms show ?thesis using v r by (intro trace_inv_other [of w s s' "DriverGet (download_url w f)"]) simp_all
  qed
  with d show ?thesis by simp
qed

lemma download_docs_fields:
  "visited_repos (download_docs w lt ls s) = visited_repos s
   \<and> subpages_count (download_docs w lt ls s) = subpages_count s
   \<and> repos_explored (download_docs w lt ls s) = repos_explored s
   \<and> repo_mapping (download_docs w lt ls s) = repo_mapping s
   \<and> output_dir (download_docs w lt ls s) = output_dir s"
proof (induction w lt ls s rule: download_docs.induct)
  case (3 w link_text href tx files s)
  obtain s' ok where d: "download_file w (param_value ''id='' href) (py_strip tx) link_text s = (s', ok)"
    by (cases "download_file w (param_value ''id='' href) (py_strip tx) link_text s")
  from download_file_fields [OF d] 3 d show ?case by simp
qed simp_all

lemma download_docs_inv: "trace_inv w s \<Longrightarrow> trace_inv w (download_docs w lt ls s)"
  by (induction w lt ls s rule: download_docs.induct) (simp_all add: download_file_inv)

lemma name_simps' [simp]:
  "base_url w \<noteq> repo_url w d" "base_url w @ ''docs'' \<noteq> repo_url w d"
  "''docs.html'' \<noteq> repo_filename d" "''index.html'' \<noteq> repo_filename d"
  by (simp_all add: repo_url_def repo_filename_def)

lemma save_page_visited:
  "d \<noteq> [] \<Longrightarrow> d \<in> visited_repos s \<Longrightarrow> save_page w pg (Some d) t url s = (s, None)"
  by (simp add: save_page_def truthy_def)

lemma save_page_repo_cases:
  assumes "d \<noteq> []" and "d \<notin> visited_repos s"
  obtains (aborted)
    "save_page w pg (Some d) t url s = (s\<lparr>visited_repos := insert d (visited_repos s)\<rparr>, None)"
  | (saved)
    "save_page w pg (Some d) t url s =
       (s\<lparr>visited_repos := insert d (visited_repos s),
          output_dir := (output_dir s)(repo_filename d \<mapsto> page_source pg),
          events := events s @ [WriteFile (repo_filename d)],
          repo_mapping := (repo_mapping s)(d \<mapsto>
             \<lparr>fichier = repo_filename d, nom_complet = t,
              url_originale = ''docs?rep='' @ d, texte_clique = t\<rparr>)\<rparr>,
        Some (repo_filename d))"
proof (cases "(sublist ''icon-connexion'' (page_source pg) \<and> \<not> sublist ''icon-deconnexion'' (page_source pg))
              \<or> write_fails w (events s) (repo_filename d)")
  case True
  with assms have "save_page w pg (Some d) t url s = (s\<lparr>visited_repos := insert d (visited_repos s)\<rparr>, None)"
    by (auto simp: save_page_def truthy_def Let_def)
  then show ?thesis by (rule aborted)
next
  case False
  with assms show ?thesis
    by (intro saved) (simp add: save_page_def truthy_def Let_def)
qed

lemma save_page_falsy_cases:
  assumes "\<not> truthy rid"
  obtains (aborted) "save_page w pg rid t url s = (s, None)"
  | (saved) fn where "fn = ''docs.html'' \<or> fn = ''index.html''"
      "save_page w pg rid t url s =
         (s\<lparr>output_dir := (output_dir s)(fn \<mapsto> page_source pg),
            events := events s @ [WriteFile fn]\<rparr>, Some fn)"
proof (cases "(sublist ''icon-connexion'' (page_source pg) \<and> \<not> sublist ''icon-deconnexion'' (page_source pg))
              \<or> write_fails w (events s) (if sublist ''docs'' url then ''docs.html'' else ''index.html'')")
  case True
  with assms have "save_page w pg rid t url s = (s, None)"
    by (auto simp: save_page_def Let_def)
  then show ?thesis by (rule aborted)
next
  case False
  with assms show ?thesis
    by (intro saved [of "if sublist ''docs'' url then ''docs.html'' else ''index.html''"])
       (simp_all add: save_page_def Let_def)
qed

lemma save_page_falsy_inv:
  assumes "trace_inv w s" and "\<not> truthy rid"
  shows "trace_inv w (fst (save_page w pg rid t url s))
         \<and> visited_repos (fst (save_page w pg rid t url s)) = visited_repos s"
proof (cases rule: save_page_falsy_cases [of rid w pg t url s, OF assms(2), case_names aborted saved])
  case aborted
  with assms show ?thesis by simp
next
  case (saved fn)
  let ?s' = "s\<lparr>output_dir := (output_dir s)(fn \<mapsto> page_source pg), events := events s @ [WriteFile fn]\<rparr>"
  from saved(1) have "\<forall>d. d \<noteq> [] \<longrightarrow> WriteFile fn \<noteq> DriverGet (repo_url w d) \<and> WriteFile fn \<noteq> WriteFile (repo_filename d)"
    by (elim disjE) simp_all
  then have "trace_inv w ?s'"
    by (intro trace_inv_other [of w s ?s' "WriteFile fn"]) (use assms(1) in simp_all)
  with saved(2) show ?thesis by simp
qed

lemma driver_get_inv:
  assumes "trace_inv w s" and "\<forall>d. d \<noteq> [] \<longrightarrow> url \<noteq> repo_url w d"
  shows "trace_inv w (driver_get url s)"
  by (rule trace_inv_other [of w s _ "DriverGet url"]) (use assms in \<open>simp_all add: driver_get_def\<close>)

lemma trace_inv_mark:
  assumes "trace_inv w s" and "d \<noteq> []"
    and "DriverGet (repo_url w d) \<notin> set (events s)"
    and "WriteFile (repo_filename d) \<notin> set (events s)"
    and "events s' = events s @ [DriverGet (repo_url w d)]
         \<or> events s' = (events s @ [DriverGet (repo_url w d)]) @ [WriteFile (repo_filename d)]"
    and "visited_repos s' = insert d (visited_repos s)"
    and "\<forall>k. k \<noteq> d \<longrightarrow> repo_mapping s' k = repo_mapping s k"
    and "repo_mapping s' d = repo_mapping s d
         \<or> (\<exists>m. Some m = repo_mapping s' d \<and> fichier m = repo_filename d)"
  shows "trace_inv w s'"
proof -
  have c: "count_list (events s) (DriverGet (repo_url w d)) = 0"
    "count_list (events s) (WriteFile (repo_filename d)) = 0"
    using assms(3,4) by simp_all
  have m: "\<forall>k m. repo_mapping s' k = Some m \<longrightarrow> fichier m = repo_filename k"
  proof (intro allI impI)
    fix k m assume a: "repo_mapping s' k = Some m"
    show "fichier m = repo_filename k"
    proof (cases "k = d")
      case True
      with a assms(1,8) show ?thesis unfolding trace_inv_def by auto
    next
      case False
      with a assms(1,7) show ?thesis unfolding trace_inv_def by auto
    qed
  qed
  have "count_list (events s') (DriverGet (repo_url w k)) \<le> 1
        \<and> count_list (events s') (WriteFile (repo_filename k)) \<le> 1
        \<and> (DriverGet (repo_url w k) \<in> set (events s') \<longrightarrow> k \<in> visited_repos s')
        \<and> (WriteFile (repo_filename k) \<in> set (events s') \<longrightarrow> k \<in> visited_repos s')"
    if "k \<noteq> []" for k
  proof -
    from assms(1) that have o:
      "count_list (events s) (DriverGet (repo_url w k)) \<le> 1"
      "count_list (events s) (WriteFile (repo_filename k)) \<le> 1"
      "DriverGet (repo_url w k) \<in> set (events s) \<longrightarrow> k \<in> visited_repos s"
      "WriteFile (repo_filename k) \<in> set (events s) \<longrightarrow> k \<in> visited_repos s"
      unfolding trace_inv_def by blast+
    from assms(5) show ?thesis
    proof
      assume e: "events s' = events s @ [DriverGet (repo_url w d)]"
      show ?thesis
      proof (cases "k = d")
        case True
        with c e assms(3,4,6) show ?thesis by simp
      next
        case False
        with o e assms(6) show ?thesis by simp
      qed
    next
      assume e: "events s' = (events s @ [DriverGet (repo_url w d)]) @ [WriteFile (repo_filename d)]"
      show ?thesis
      proof (cases "k = d")
        case True
        with c e assms(3,4,6) show ?thesis by simp
      next
        case False
        with o e assms(6) show ?thesis by simp
      qed
    qed
  qed
  with m show ?thesis unfolding trace_inv_def by blast
qed

lemma explore_step_inv:
  assumes "trace_inv w s" and "d \<notin> visited_repos s"
  defines "s1 \<equiv> s\<lparr>subpages_count := subpages_count s + 1,
                    events := events s @ [DriverGet (repo_url w d)]\<rparr>"
  shows "trace_inv w (fst (save_page w pg (Some d) t url s1))
         \<and> visited_repos s \<subseteq> visited_repos (fst (save_page w pg (Some d) t url s1))"
proof (cases "d = []")
  case True
  have "trace_inv w s1"
    unfolding s1_def
    by (rule trace_inv_other [of w s _ "DriverGet (repo_url w d)"]) (use assms(1) True in simp_all)
  moreover from True have "\<not> truthy (Some d)" by (simp add: truthy_def)
  ultimately show ?thesis
    using save_page_falsy_inv [of w s1 "Some d" pg t url] by (simp add: s1_def)
next
  case False
  from assms(2) have nv: "d \<notin> visited_repos s1" by (simp add: s1_def)
  from assms(1,2) False have fresh: "DriverGet (repo_url w d) \<notin> set (events s)"
    "WriteFile (repo_filename d) \<notin> set (events s)"
    unfolding trace_inv_def by blast+
  show ?thesis
  proof (cases rule: save_page_repo_cases [of d s1 w pg t url, OF False nv, case_names aborted saved])
    case aborted
    have "trace_inv w (s1\<lparr>visited_repos := insert d (visited_repos s1)\<rparr>)"
      by (rule trace_inv_mark [OF assms(1) False fresh]) (simp_all add: s1_def)
    with aborted show ?thesis by (auto simp: s1_def)
  next
    case saved
    have "trace_inv w (s1\<lparr>visited_repos := insert d (visited_repos s1),
          output_dir := (output_dir s1)(repo_filename d \<mapsto> page_source pg),
          events := events s1 @ [WriteFile (repo_filename d)],
          repo_mapping := (repo_mapping s1)(d \<mapsto>
             \<lparr>fichier = repo_filename d, nom_complet = t,
              url_originale = ''docs?rep='' @ d, texte_clique = t\<rparr>)\<rparr>)"
      by (rule trace_inv_mark [OF assms(1) False fresh]) (simp_all add: s1_def)
    with saved show ?thesis by (auto simp: s1_def)
  qed
qed

lemma explore_subs_inv:
  assumes f: "\<forall>d t s s'. trace_inv w s \<longrightarrow> d \<notin> visited_repos s \<longrightarrow> f d t s = Some s'
                \<longrightarrow> trace_inv w s' \<and> visited_repos s \<subseteq> visited_repos s'"
  shows "trace_inv w s \<Longrightarrow> explore_subs f subs s = Some s'
         \<Longrightarrow> trace_inv w s' \<and> visited_repos s \<subseteq> visited_repos s'"
proof (induction subs arbitrary: s)
  case Nil
  then show ?case by simp
next
  case (Cons a subs)
  obtain d t where a: "a = (d, t)" by (cases a)
  show ?case
  proof (cases "d \<in> visited_repos s")
    case True
    with Cons a show ?thesis by simp
  next
    case False
    with Cons.prems a obtain s1 where s1: "f d t s = Some s1" "explore_subs f subs s1 = Some s'"
      by (auto split: option.splits)
    from f Cons.prems(1) False s1(1) have i: "trace_inv w s1" and v: "visited_repos s \<subseteq> visited_repos s1"
      by blast+
    from Cons.IH [OF i s1(2)] v show ?thesis by auto
  qed
qed

lemma explore_repository_inv:
  "trace_inv w s \<Longrightarrow> d \<notin> visited_repos s \<Longrightarrow> explore_repository n w d t s = Some s'
   \<Longrightarrow> trace_inv w s' \<and> visited_repos s \<subseteq> visited_repos s'"
proof (induction n arbitrary: d t s s')
  case 0
  then show ?case by simp
next
  case (Suc n)
  show ?case
  proof (cases "test_mode w \<and> subpages_count s \<ge> TEST_MAX_SUBPAGES")
    case True
    with Suc.prems show ?thesis by simp
  next
    case False
    let ?s1 = "s\<lparr>subpages_count := subpages_count s + 1,
                    events := events s @ [DriverGet (repo_url w d)]\<rparr>"
    let ?pg = "browser w (events ?s1) (repo_url w d)"
    let ?s2 = "fst (save_page w ?pg (Some d) t (repo_url w d) ?s1)"
    let ?s3 = "download_docs w t (doc_links ?pg) ?s2"
    from Suc.prems(3)
    have e: "explore_subs (explore_repository n w) (sub_repo_list ?pg) ?s3 = Some s'"
      by (simp only: explore_repository.simps False if_False Let_def)
    from explore_step_inv [OF Suc.prems(1,2), of ?pg t "repo_url w d"]
    have i2: "trace_inv w ?s2" and v2: "visited_repos s \<subseteq> visited_repos ?s2" by simp_all
    from i2 have i3: "trace_inv w ?s3" by (rule download_docs_inv)
    have v3: "visited_repos ?s3 = visited_repos ?s2" by (simp add: download_docs_fields)
    have ih: "\<forall>d t s s'. trace_inv w s \<longrightarrow> d \<notin> visited_repos s
                \<longrightarrow> explore_repository n w d t s = Some s'
                \<longrightarrow> trace_inv w s' \<and> visited_repos s \<subseteq> visited_repos s'"
      using Suc.IH by blast
    from explore_subs_inv [OF ih i3 e] v2 v3
    show ?thesis by auto
  qed
qed

lemma explore_main_inv:
  "trace_inv w s \<Longrightarrow> explore_main n w main_repos s = Some s'
   \<Longrightarrow> trace_inv w s' \<and> visited_repos s \<subseteq> visited_repos s'"
proof (induction main_repos arbitrary: s)
  case Nil
  then show ?case by simp
next
  case (Cons a main_repos)
  obtain d t where a: "a = (d, t)" by (cases a)
  show ?case
  proof (cases "test_mode w \<and> repos_explored s \<ge> TEST_MAX_REPOS")
    case True
    with Cons.prems a show ?thesis by simp
  next
    case c: False
    show ?thesis
    proof (cases "d \<in> visited_repos s")
      case True
      with Cons c a show ?thesis by simp
    next
      case False
      with Cons.prems a c obtain s1 where s1: "explore_repository n w d t s = Some s1"
        "explore_main n w main_repos (s1\<lparr>repos_explored := repos_explored s1 + 1\<rparr>) = Some s'"
        by (auto split: option.splits)
      from explore_repository_inv [OF Cons.prems(1) False s1(1)]
      have i: "trace_inv w s1" and v: "visited_repos s \<subseteq> visited_repos s1" by simp_all
      from i have "trace_inv w (s1\<lparr>repos_explored := repos_explored s1 + 1\<rparr>)"
        by (rule trace_inv_same) simp_all
      from Cons.IH [OF this s1(2)] v show ?thesis by auto
    qed
  qed
qed

lemma download_all_inv:
  assumes "trace_inv w s" and "download_all n w s = Some (s', ok)"
  shows "trace_inv w s'"
proof -
  let ?b = "base_url w"
  let ?s1 = "driver_get ?b s"
  let ?s3 = "driver_get ?b (driver_get (?b @ ''docs'') ?s1)"
  let ?s4 = "fst (save_page w (browser w (events ?s3) ?b) None [] ?b ?s3)"
  let ?s5 = "driver_get (?b @ ''docs'') ?s4"
  let ?pg = "browser w (events ?s5) (?b @ ''docs'')"
  let ?s6 = "fst (save_page w ?pg None [] (?b @ ''docs'') ?s5)"
  have nt: "\<not> truthy None" by (simp add: truthy_def)
  have g1: "\<forall>d. d \<noteq> [] \<longrightarrow> ?b \<noteq> repo_url w d"
    and g2: "\<forall>d. d \<noteq> [] \<longrightarrow> ?b @ ''docs'' \<noteq> repo_url w d" by simp_all
  from assms(1) g1 have i1: "trace_inv w ?s1" by (rule driver_get_inv)
  from i1 g2 have i2: "trace_inv w (driver_get (?b @ ''docs'') ?s1)" by (rule driver_get_inv)
  from i2 g1 have i3: "trace_inv w ?s3" by (rule driver_get_inv)
  from save_page_falsy_inv [OF i3 nt] have i4: "trace_inv w ?s4" by blast
  from i4 g2 have i5: "trace_inv w ?s5" by (rule driver_get_inv)
  from save_page_falsy_inv [OF i5 nt] have i6: "trace_inv w ?s6" by blast
  show ?thesis
  proof (cases "login_ok w")
    case False
    with assms(2) have "s' = ?s1" by (simp add: download_all_def Let_def)
    with i1 show ?thesis by simp
  next
    case True
    with assms(2) have "explore_main n w (main_repo_links (menu_links ?pg)) ?s6 = Some s'"
      by (simp add: download_all_def Let_def split: option.splits)
    from explore_main_inv [OF i6 this] show ?thesis by simp
  qed
qed

lemma save_page_mono: "visited_repos s \<subseteq> visited_repos (fst (save_page w pg rid t url s))"
  by (simp add: save_page_def Let_def) blast

lemma save_page_marks:
  "d \<noteq> [] \<Longrightarrow> d \<in> visited_repos (fst (save_page w pg (Some d) t url s))"
proof (cases "d \<in> visited_repos s")
  case True
  assume "d \<noteq> []"
  with True show ?thesis by (simp add: save_page_visited)
next
  case False
  assume d: "d \<noteq> []"
  show ?thesis
    by (cases rule: save_page_repo_cases [of d s w pg t url, OF d False, case_names aborted saved])
       simp_all
qed

lemma explore_subs_mono:
  assumes f: "\<forall>d t s s'. f d t s = Some s' \<longrightarrow> visited_repos s \<subseteq> visited_repos s'"
  shows "explore_subs f subs s = Some s' \<Longrightarrow> visited_repos s \<subseteq> visited_repos s'"
proof (induction subs arbitrary: s)
  case Nil
  then show ?case by simp
next
  case (Cons a subs)
  obtain d t where a: "a = (d, t)" by (cases a)
  show ?case
  proof (cases "d \<in> visited_repos s")
    case True
    with Cons a show ?thesis by simp
  next
    case False
    with Cons.prems a obtain s1 where s1: "f d t s = Some s1" "explore_subs f subs s1 = Some s'"
      by (auto split: option.splits)
    from f s1(1) have "visited_repos s \<subseteq> visited_repos s1" by blast
    with Cons.IH [OF s1(2)] show ?thesis by auto
  qed
qed

lemma explore_repository_unfold:
  assumes "\<not> (test_mode w \<and> subpages_count s \<ge> TEST_MAX_SUBPAGES)"
  shows "explore_repository (Suc n) w d t s =
     explore_subs (explore_repository n w)
       (sub_repo_list (browser w (events s @ [DriverGet (repo_url w d)]) (repo_url w d)))
       (download_docs w t (doc_links (browser w (events s @ [DriverGet (repo_url w d)]) (repo_url w d)))
         (fst (save_page w (browser w (events s @ [DriverGet (repo_url w d)]) (repo_url w d))
                 (Some d) t (repo_url w d)
                 (s\<lparr>subpages_count := subpages_count s + 1,
                    events := events s @ [DriverGet (repo_url w d)]\<rparr>))))"
  by (simp only: explore_repository.simps assms if_False Let_def) simp

lemma explore_repository_capped:
  "test_mode w \<and> subpages_count s \<ge> TEST_MAX_SUBPAGES \<Longrightarrow> explore_repository (Suc n) w d t s = Some s"
  by simp

lemma explore_repository_mono_marks:
  "explore_repository n w d t s = Some s' \<Longrightarrow>
     visited_repos s \<subseteq> visited_repos s'
     \<and> (d \<noteq> [] \<longrightarrow> (test_mode w \<and> subpages_count s \<ge> TEST_MAX_SUBPAGES \<and> s' = s)
                      \<or> d \<in> visited_repos s')"
proof (induction n arbitrary: d t s s')
  case 0
  then show ?case by simp
next
  case (Suc n)
  show ?case
  proof (cases "test_mode w \<and> subpages_count s \<ge> TEST_MAX_SUBPAGES")
    case True
    with Suc.prems show ?thesis by simp
  next
    case False
    let ?pg = "browser w (events s @ [DriverGet (repo_url w d)]) (repo_url w d)"
    let ?s1 = "s\<lparr>subpages_count := subpages_count s + 1,
                    events := events s @ [DriverGet (repo_url w d)]\<rparr>"
    let ?s2 = "fst (save_page w ?pg (Some d) t (repo_url w d) ?s1)"
    let ?s3 = "download_docs w t (doc_links ?pg) ?s2"
    from Suc.prems explore_repository_unfold [OF False]
    have e: "explore_subs (explore_repository n w) (sub_repo_list ?pg) ?s3 = Some s'" by simp
    have ih: "\<forall>d t s s'. explore_repository n w d t s = Some s' \<longrightarrow> visited_repos s \<subseteq> visited_repos s'"
      using Suc.IH by blast
    have v3: "visited_repos ?s3 = visited_repos ?s2" by (simp add: download_docs_fields)
    have v2: "visited_repos ?s1 \<subseteq> visited_repos ?s2" by (rule save_page_mono)
    have m2: "d \<noteq> [] \<longrightarrow> d \<in> visited_repos ?s2" by (simp add: save_page_marks)
    from explore_subs_mono [OF ih e] have "visited_repos ?s3 \<subseteq> visited_repos s'" .
    with v3 v2 m2 show ?thesis by auto
  qed
qed

lemma explore_subs_duplicate:
  assumes "d \<noteq> []" and "d \<notin> visited_repos s"
  shows "explore_subs (explore_repository n w) [(d, t1), (d, t2)] s = explore_repository n w d t1 s"
proof (cases "explore_repository n w d t1 s")
  case None
  with assms show ?thesis by simp
next
  case (Some s')
  from explore_repository_mono_marks [OF Some] assms(1)
  consider "test_mode w \<and> subpages_count s \<ge> TEST_MAX_SUBPAGES" "s' = s" | "d \<in> visited_repos s'"
    by blast
  then show ?thesis
  proof cases
    case 1
    from Some obtain m where "n = Suc m" by (cases n) simp_all
    with 1 Some assms show ?thesis by simp
  next
    case 2
    with Some assms show ?thesis by simp
  qed
qed

lemma example_dl_simps:
  "before_files example_dl = [''/dl/old.txt'']" "before_time example_dl = 100"
  "get_error example_dl = None" "polls example_dl i = [(''/dl/old.txt'', 50), (''/dl/sujet.pdf'', 101)]"
  "file_size example_dl = 2048" "move_error example_dl = None" "link_error example_dl = None"
  by (simp_all add: example_dl_def)

lemma example_world_simps:
  "base_url example_world = ''https://cahier-de-prepa.fr/mp/''" "test_mode example_world = False"
  "login_ok example_world = True" "browser example_world tr = example_page"
  "write_fails example_world tr f = False" "download_env example_world tr f = example_dl"
  by (simp_all add: example_world_def)

lemma example_find: "find_new_file example_dl 30 0 None = Some ''/dl/sujet.pdf''"
proof -
  have n: "new_entries example_dl 0 = [(''/dl/sujet.pdf'', 101)]"
    by (simp add: new_entries_def example_dl_simps)
  have "find_new_file example_dl (Suc 29) 0 None = Some (fst (newest (new_entries example_dl 0)))"
    by (rule find_new_file_first) (simp_all add: n newest_def example_dl_simps)
  then show ?thesis by (simp add: n newest_def)
qed

lemma example_suffix: "path_suffix ''/dl/sujet.pdf'' = ''.pdf''"
  by (simp add: path_suffix_def path_name_def rfind_def py_split.simps)

lemma example_title: "clean_title ''Sujet'' = ''Sujet''"
  by (simp add: clean_title_def collapse_ws.simps py_strip_def py_lstrip_def py_rstrip_def is_space_def is_word_def)

lemma example_try:
  "try_download example_dl ''F7'' ''Sujet'' rn s =
     (s\<lparr>fichiers_dir := (fichiers_dir s)(''Sujet.pdf'' \<mapsto> RegularFile 2048, ''F7'' \<mapsto> Symlink ''Sujet.pdf''),
        file_mapping := (file_mapping s)(''F7'' \<mapsto>
               \<lparr>fichier_reel = ''Sujet.pdf'',
                lien_symbolique = ''F7'', titre = ''Sujet'', repository = rn,
                taille = Ko 2\<rparr>),
        downloaded_files_count := downloaded_files_count s + 1\<rparr>, None)"
  by (simp add: try_download_def example_find example_suffix example_title Let_def final_name_def
       size_str_def example_dl_simps suffix_def)

lemma example_download:
  "download_file example_world ''F7'' ''Sujet'' rn s =
     (s\<lparr>events := events s @ [DriverGet ''https://cahier-de-prepa.fr/mp/download?id=F7''],
        fichiers_dir := (fichiers_dir s)(''Sujet.pdf'' \<mapsto> RegularFile 2048, ''F7'' \<mapsto> Symlink ''Sujet.pdf''),
        file_mapping := (file_mapping s)(''F7'' \<mapsto>
               \<lparr>fichier_reel = ''Sujet.pdf'',
                lien_symbolique = ''F7'', titre = ''Sujet'', repository = rn,
                taille = Ko 2\<rparr>),
        downloaded_files_count := downloaded_files_count s + 1\<rparr>, True)"
  by (simp add: download_file_def example_world_simps example_try Let_def download_url_def)

lemma example_params:
  "param_value ''id='' ''download?id=F7'' = ''F7''"
  "param_value ''rep='' ''docs?rep=5'' = ''5''"
  "param_value ''rep='' ''docs?rep=1'' = ''1''"
  "param_value ''rep='' ''docs?rep=2'' = ''2''"
  by (simp_all add: param_value_def py_split.simps)

lemma example_strip:
  "py_strip ''Sujet'' = ''Sujet''" "py_strip ''TD'' = ''TD''" "py_strip ''Maths'' = ''Maths''"
  "py_strip ''Physique'' = ''Physique''"
  by (simp_all add: py_strip_def py_lstrip_def py_rstrip_def is_space_def)

lemma example_explore_5:
  "explore_repository (Suc n) example_world ''5'' ''TD'' s =
     Some (fst (save_page example_world (example_page ''https://cahier-de-prepa.fr/mp/docs?rep=5'')
        (Some ''5'') ''TD'' ''https://cahier-de-prepa.fr/mp/docs?rep=5''
        (s\<lparr>subpages_count := subpages_count s + 1,
           events := events s @ [DriverGet ''https://cahier-de-prepa.fr/mp/docs?rep=5'']\<rparr>)))"
  by (simp add: example_world_simps Let_def repo_url_def example_page_def sub_repo_list_def)

lemma example_run:
  "map_option (events \<circ> fst) (download_all 3 example_world init_state) =
     Some [DriverGet ''https://cahier-de-prepa.fr/mp/'',
           DriverGet ''https://cahier-de-prepa.fr/mp/docs'',
           DriverGet ''https://cahier-de-prepa.fr/mp/'',
           WriteFile ''index.html'',
           DriverGet ''https://cahier-de-prepa.fr/mp/docs'',
           WriteFile ''docs.html'',
           DriverGet ''https://cahier-de-prepa.fr/mp/docs?rep=1'',
           WriteFile ''docs_rep_1.html'',
           DriverGet ''https://cahier-de-prepa.fr/mp/download?id=F7'',
           DriverGet ''https://cahier-de-prepa.fr/mp/docs?rep=5'',
           WriteFile ''docs_rep_5.html'',
           DriverGet ''https://cahier-de-prepa.fr/mp/docs?rep=2'',
           WriteFile ''docs_rep_2.html'',
           DriverGet ''https://cahier-de-prepa.fr/mp/download?id=F7'']"
  by (simp add: download_all_def Let_def driver_get_def example_world_simps save_page_def truthy_def
        sublist_code example_page_def example_params example_strip eval_nat_numeral
        repo_url_def repo_filename_def example_download sub_repo_list_def init_state_def)

lemma save_page_events: "set (events s) \<subseteq> set (events (fst (save_page w pg rid t url s)))"
  by (simp add: save_page_def Let_def) blast

lemma download_docs_events: "set (events s) \<subseteq> set (events (download_docs w lt ls s))"
proof (induction w lt ls s rule: download_docs.induct)
  case (3 w link_text href tx files s)
  obtain s' ok where d: "download_file w (param_value ''id='' href) (py_strip tx) link_text s = (s', ok)"
    by (cases "download_file w (param_value ''id='' href) (py_strip tx) link_text s")
  from download_file_fields [OF d] have "set (events s) \<subseteq> set (events s')" by auto
  with 3 d show ?case by (cases "sublist ''download?id='' href") auto
qed simp_all

lemma explore_subs_events:
  assumes f: "\<forall>d t s s'. f d t s = Some s' \<longrightarrow> set (events s) \<subseteq> set (events s')"
  shows "explore_subs f subs s = Some s' \<Longrightarrow> set (events s) \<subseteq> set (events s')"
proof (induction subs arbitrary: s)
  case Nil
  then show ?case by simp
next
  case (Cons a subs)
  obtain d t where a: "a = (d, t)" by (cases a)
  show ?case
  proof (cases "d \<in> visited_repos s")
    case True
    with Cons a show ?thesis by simp
  next
    case False
    with Cons.prems a obtain s1 where s1: "f d t s = Some s1" "explore_subs f subs s1 = Some s'"
      by (auto split: option.splits)
    from f s1(1) have "set (events s) \<subseteq> set (events s1)" by blast
    with Cons.IH [OF s1(2)] show ?thesis by blast
  qed
qed

lemma explore_repository_events:
  "explore_repository n w d t s = Some s' \<Longrightarrow> set (events s) \<subseteq> set (events s')"
proof (induction n arbitrary: d t s s')
  case 0
  then show ?case by simp
next
  case (Suc n)
  show ?case
  proof (cases "test_mode w \<and> subpages_count s \<ge> TEST_MAX_SUBPAGES")
    case True
    with Suc.prems show ?thesis by simp
  next
    case False
    let ?pg = "browser w (events s @ [DriverGet (repo_url w d)]) (repo_url w d)"
    let ?s1 = "s\<lparr>subpages_count := subpages_count s + 1,
                    events := events s @ [DriverGet (repo_url w d)]\<rparr>"
    let ?s2 = "fst (save_page w ?pg (Some d) t (repo_url w d) ?s1)"
    let ?s3 = "download_docs w t (doc_links ?pg) ?s2"
    from Suc.prems explore_repository_unfold [OF False]
    have e: "explore_subs (explore_repository n w) (sub_repo_list ?pg) ?s3 = Some s'" by simp
    have ih: "\<forall>d t s s'. explore_repository n w d t s = Some s' \<longrightarrow> set (events s) \<subseteq> set (events s')"
      using Suc.IH by blast
    have "set (events ?s1) \<subseteq> set (events ?s2)" by (rule save_page_events)
    moreover have "set (events ?s2) \<subseteq> set (events ?s3)" by (rule download_docs_events)
    moreover from explore_subs_events [OF ih e] have "set (events ?s3) \<subseteq> set (events s')" .
    ultimately show ?thesis by auto
  qed
qed

lemma explore_repository_once:
  assumes "trace_inv w s" and "d \<noteq> []" and "d \<notin> visited_repos s" and "\<not> test_mode w"
    and "explore_repository n w d t s = Some s'"
  shows "count_list (events s') (DriverGet (repo_url w d)) = 1
    \<and> (\<not> (sublist ''icon-connexion''
              (page_source (browser w (events s @ [DriverGet (repo_url w d)]) (repo_url w d)))
            \<and> \<not> sublist ''icon-deconnexion''
              (page_source (browser w (events s @ [DriverGet (repo_url w d)]) (repo_url w d))))
        \<and> \<not> write_fails w (events s @ [DriverGet (repo_url w d)]) (repo_filename d)
        \<longrightarrow> count_list (events s') (WriteFile (repo_filename d)) = 1)"
proof -
  let ?pg = "browser w (events s @ [DriverGet (repo_url w d)]) (repo_url w d)"
  let ?s1 = "s\<lparr>subpages_count := subpages_count s + 1,
                  events := events s @ [DriverGet (repo_url w d)]\<rparr>"
  let ?s2 = "fst (save_page w ?pg (Some d) t (repo_url w d) ?s1)"
  let ?s3 = "download_docs w t (doc_links ?pg) ?s2"
  from assms(5) obtain m where n: "n = Suc m" by (cases n) simp_all
  from assms(4) have nc: "\<not> (test_mode w \<and> subpages_count s \<ge> TEST_MAX_SUBPAGES)" by simp
  from assms(5) n explore_repository_unfold [OF nc]
  have e: "explore_subs (explore_repository m w) (sub_repo_list ?pg) ?s3 = Some s'" by simp
  have ev: "\<forall>d t s s'. explore_repository m w d t s = Some s' \<longrightarrow> set (events s) \<subseteq> set (events s')"
    using explore_repository_events by blast
  have sub: "set (events ?s2) \<subseteq> set (events s')"
    using download_docs_events [of ?s2 w t "doc_links ?pg"] explore_subs_events [OF ev e] by blast
  from explore_repository_inv [OF assms(1,3,5)] assms(2)
  have le: "count_list (events s') (DriverGet (repo_url w d)) \<le> 1"
    "count_list (events s') (WriteFile (repo_filename d)) \<le> 1"
    unfolding trace_inv_def by blast+
  have "DriverGet (repo_url w d) \<in> set (events ?s1)" by simp
  with save_page_events [of ?s1 w ?pg "Some d" t "repo_url w d"] sub
  have "DriverGet (repo_url w d) \<in> set (events s')" by blast
  then have "count_list (events s') (DriverGet (repo_url w d)) \<noteq> 0" by (simp add: count_list_0_iff)
  with le(1) have g: "count_list (events s') (DriverGet (repo_url w d)) = 1" by simp
  have "count_list (events s') (WriteFile (repo_filename d)) = 1"
    if ok: "\<not> (sublist ''icon-connexion'' (page_source ?pg) \<and> \<not> sublist ''icon-deconnexion'' (page_source ?pg))
        \<and> \<not> write_fails w (events s @ [DriverGet (repo_url w d)]) (repo_filename d)"
  proof -
    from assms(2,3) ok have "WriteFile (repo_filename d) \<in> set (events ?s2)"
      by (cases "sublist ''icon-connexion'' (page_source ?pg)";
          cases "sublist ''icon-deconnexion'' (page_source ?pg)")
         (simp_all add: save_page_def truthy_def Let_def)
    with sub have "WriteFile (repo_filename d) \<in> set (events s')" by blast
    then have "count_list (events s') (WriteFile (repo_filename d)) \<noteq> 0" by (simp add: count_list_0_iff)
    with le(2) show ?thesis by simp
  qed
  with g show ?thesis by blast
qed

text \<open>
  Claim C3. In a run, the page of a directory with a non-empty identifier \<open>d\<close> is loaded at
  most once and written at most once, and the file recorded for \<open>d\<close> is \<open>docs_rep_d.html\<close>.
  A directory page with two links to the same unvisited directory has that directory
  explored as by a single call of \<open>explore_repository\<close>, the second link doing nothing:
  outside test mode its page is loaded exactly once and, when the page is a logged-in one
  and can be written, saved exactly once.
\<close>

theorem directory_saved_once:
  "(download_all depth w init_state = Some (s, ok) \<and> d \<noteq> [] \<longrightarrow>
       count_list (events s) (DriverGet (repo_url w d)) \<le> 1
     \<and> count_list (events s) (WriteFile (repo_filename d)) \<le> 1
     \<and> (\<forall>m. repo_mapping s d = Some m \<longrightarrow> fichier m = repo_filename d))
   \<and> (d \<noteq> [] \<and> d \<notin> visited_repos s0 \<longrightarrow>
        explore_subs (explore_repository depth w) [(d, t1), (d, t2)] s0
        = explore_repository depth w d t1 s0)
   \<and> (trace_inv w s0 \<and> d \<noteq> [] \<and> d \<notin> visited_repos s0 \<and> \<not> test_mode w
        \<and> explore_subs (explore_repository depth w) [(d, t1), (d, t2)] s0 = Some s' \<longrightarrow>
          count_list (events s') (DriverGet (repo_url w d)) = 1
        \<and> (\<not> (sublist ''icon-connexion''
                  (page_source (browser w (events s0 @ [DriverGet (repo_url w d)]) (repo_url w d)))
                \<and> \<not> sublist ''icon-deconnexion''
                  (page_source (browser w (events s0 @ [DriverGet (repo_url w d)]) (repo_url w d))))
            \<and> \<not> write_fails w (events s0 @ [DriverGet (repo_url w d)]) (repo_filename d)
            \<longrightarrow> count_list (events s') (WriteFile (repo_filename d)) = 1))"
proof (intro conjI)
  show "download_all depth w init_state = Some (s, ok) \<and> d \<noteq> [] \<longrightarrow>
       count_list (events s) (DriverGet (repo_url w d)) \<le> 1
     \<and> count_list (events s) (WriteFile (repo_filename d)) \<le> 1
     \<and> (\<forall>m. repo_mapping s d = Some m \<longrightarrow> fichier m = repo_filename d)"
  proof
    assume a: "download_all depth w init_state = Some (s, ok) \<and> d \<noteq> []"
    then have "trace_inv w s" using download_all_inv [OF trace_inv_init] by blast
    with a show "count_list (events s) (DriverGet (repo_url w d)) \<le> 1
     \<and> count_list (events s) (WriteFile (repo_filename d)) \<le> 1
     \<and> (\<forall>m. repo_mapping s d = Some m \<longrightarrow> fichier m = repo_filename d)"
      unfolding trace_inv_def by blast
  qed
next
  show "d \<noteq> [] \<and> d \<notin> visited_repos s0 \<longrightarrow>
        explore_subs (explore_repository depth w) [(d, t1), (d, t2)] s0
        = explore_repository depth w d t1 s0"
  proof
    assume "d \<noteq> [] \<and> d \<notin> visited_repos s0"
    then have "d \<noteq> []" and "d \<notin> visited_repos s0" by simp_all
    then show "explore_subs (explore_repository depth w) [(d, t1), (d, t2)] s0
        = explore_repository depth w d t1 s0"
      by (rule explore_subs_duplicate)
  qed
next
  show "trace_inv w s0 \<and> d \<noteq> [] \<and> d \<notin> visited_repos s0 \<and> \<not> test_mode w
        \<and> explore_subs (explore_repository depth w) [(d, t1), (d, t2)] s0 = Some s' \<longrightarrow>
          count_list (events s') (DriverGet (repo_url w d)) = 1
        \<and> (\<not> (sublist ''icon-connexion''
                  (page_source (browser w (events s0 @ [DriverGet (repo_url w d)]) (repo_url w d)))
                \<and> \<not> sublist ''icon-deconnexion''
                  (page_source (browser w (events s0 @ [DriverGet (repo_url w d)]) (repo_url w d))))
            \<and> \<not> write_fails w (events s0 @ [DriverGet (repo_url w d)]) (repo_filename d)
            \<longrightarrow> count_list (events s') (WriteFile (repo_filename d)) = 1)"
  proof
    assume a: "trace_inv w s0 \<and> d \<noteq> [] \<and> d \<notin> visited_repos s0 \<and> \<not> test_mode w
        \<and> explore_subs (explore_repository depth w) [(d, t1), (d, t2)] s0 = Some s'"
    then have h: "trace_inv w s0" "d \<noteq> []" "d \<notin> visited_repos s0" "\<not> test_mode w"
      and e: "explore_subs (explore_repository depth w) [(d, t1), (d, t2)] s0 = Some s'"
      by blast+
    from e have "explore_repository depth w d t1 s0 = Some s'"
      unfolding explore_subs_duplicate [OF h(2,3)] .
    from explore_repository_once [OF h this]
    show "count_list (events s') (DriverGet (repo_url w d)) = 1
        \<and> (\<not> (sublist ''icon-connexion''
                  (page_source (browser w (events s0 @ [DriverGet (repo_url w d)]) (repo_url w d)))
                \<and> \<not> sublist ''icon-deconnexion''
                  (page_source (browser w (events s0 @ [DriverGet (repo_url w d)]) (repo_url w d))))
            \<and> \<not> write_fails w (events s0 @ [DriverGet (repo_url w d)]) (repo_filename d)
            \<longrightarrow> count_list (events s') (WriteFile (repo_filename d)) = 1)" .
  qed
qed

lemma example_explore_dup:
  "explore_subs (explore_repository 2 example_world) [(''5'', ''TD''), (''5'', ''TD'')] init_state
   \<noteq> None"
proof -
  have "''5'' \<noteq> []" "''5'' \<notin> visited_repos init_state" by (simp_all add: init_state_def)
  then have "explore_subs (explore_repository 2 example_world) [(''5'', ''TD''), (''5'', ''TD'')] init_state
    = explore_repository 2 example_world ''5'' ''TD'' init_state"
    by (rule explore_subs_duplicate)
  also have "\<dots> = explore_repository (Suc 1) example_world ''5'' ''TD'' init_state"
    by (simp only: numeral_2_eq_2 One_nat_def)
  finally show ?thesis by (simp only: example_explore_5 option.distinct not_False_eq_True)
qed

theorem directory_saved_once_witness:
  "map_option fichier (repo_mapping (fst (the (download_all 3 example_world init_state))) ''5'')
       \<in> {None, Some (repo_filename ''5'')}
   \<and> explore_subs (explore_repository 2 example_world) [(''5'', ''TD''), (''5'', ''TD'')] init_state
      = explore_repository 2 example_world ''5'' ''TD'' init_state
   \<and> count_list (events (the (explore_subs (explore_repository 2 example_world)
         [(''5'', ''TD''), (''5'', ''TD'')] init_state))) (DriverGet (repo_url example_world ''5'')) = 1
   \<and> count_list (events (the (explore_subs (explore_repository 2 example_world)
         [(''5'', ''TD''), (''5'', ''TD'')] init_state))) (WriteFile (repo_filename ''5'')) = 1"
proof -
  have "download_all 3 example_world init_state \<noteq> None"
  proof
    assume "download_all 3 example_world init_state = None"
    then have "map_option (events \<circ> fst) (download_all 3 example_world init_state) = None"
      by (simp only: option.map)
    with example_run show False by (simp only: option.distinct)
  qed
  then obtain x where "download_all 3 example_world init_state = Some x"
    by (cases "download_all 3 example_world init_state") blast+
  then obtain s ok where r: "download_all 3 example_world init_state = Some (s, ok)"
    by (cases x) blast
  from example_explore_dup obtain s' where e:
    "explore_subs (explore_repository 2 example_world) [(''5'', ''TD''), (''5'', ''TD'')] init_state
     = Some s'" by (cases "explore_subs (explore_repository 2 example_world)
        [(''5'', ''TD''), (''5'', ''TD'')] init_state") simp_all
  have h: "''5'' \<noteq> []" "''5'' \<notin> visited_repos init_state" by (simp_all add: init_state_def)
  have tm: "\<not> test_mode example_world" by (simp add: example_world_simps)
  have pg: "\<not> (sublist ''icon-connexion''
                  (page_source (browser example_world
                     (events init_state @ [DriverGet (repo_url example_world ''5'')])
                     (repo_url example_world ''5'')))
                \<and> \<not> sublist ''icon-deconnexion''
                  (page_source (browser example_world
                     (events init_state @ [DriverGet (repo_url example_world ''5'')])
                     (repo_url example_world ''5''))))
            \<and> \<not> write_fails example_world
                 (events init_state @ [DriverGet (repo_url example_world ''5'')])
                 (repo_filename ''5'')"
    by (simp add: example_world_simps repo_url_def example_page_def sublist_code)
  note t3 = directory_saved_once [where depth = 3 and w = example_world and s = s and ok = ok
      and d = "''5''" and ?s0.0 = init_state]
  note t2 = directory_saved_once [where depth = 2 and w = example_world and d = "''5''"
      and ?s0.0 = init_state and ?t1.0 = "''TD''" and ?t2.0 = "''TD''" and s' = s']
  from t3 [THEN conjunct1, THEN mp, OF conjI [OF r h(1)]]
  have "\<forall>m. repo_mapping s ''5'' = Some m \<longrightarrow> fichier m = repo_filename ''5''" by (rule conjunct2 [THEN conjunct2])
  then have a: "map_option fichier (repo_mapping s ''5'') \<in> {None, Some (repo_filename ''5'')}"
    by (cases "repo_mapping s ''5''") simp_all
  note b = t2 [THEN conjunct2, THEN conjunct1, THEN mp, OF conjI [OF h]]
  note c = t2 [THEN conjunct2, THEN conjunct2, THEN mp,
      OF conjI [OF trace_inv_init conjI [OF h(1) conjI [OF h(2) conjI [OF tm e]]]]]
  note c1 = c [THEN conjunct1]
  note c2 = c [THEN conjunct2, THEN mp, OF pg]
  show ?thesis
  proof (intro conjI)
    show "map_option fichier (repo_mapping (fst (the (download_all 3 example_world init_state))) ''5'')
       \<in> {None, Some (repo_filename ''5'')}"
      unfolding r option.sel fst_conv by (rule a)
    show "explore_subs (explore_repository 2 example_world) [(''5'', ''TD''), (''5'', ''TD'')] init_state
      = explore_repository 2 example_world ''5'' ''TD'' init_state" by (rule b)
    show "count_list (events (the (explore_subs (explore_repository 2 example_world)
         [(''5'', ''TD''), (''5'', ''TD'')] init_state))) (DriverGet (repo_url example_world ''5'')) = 1"
      unfolding e option.sel by (rule c1)
    show "count_list (events (the (explore_subs (explore_repository 2 example_world)
         [(''5'', ''TD''), (''5'', ''TD'')] init_state))) (WriteFile (repo_filename ''5'')) = 1"
      unfolding e option.sel by (rule c2)
  qed
qed






text \<open>
  Claim C2 as stated fails: after \<open>save_page\<close> has aborted on a page that is not logged in,
  the directory is in \<open>visited_repos\<close>, with no page written and no entry in \<open>repo_mapping\<close>.
\<close>

theorem visited_after_abort_counterexample:
  "snd (save_page example_world logged_out_page (Some ''5'') ''TD''
          ''https://cahier-de-prepa.fr/mp/docs?rep=5'' init_state) = None
   \<and> ''5'' \<in> visited_repos (fst (save_page example_world logged_out_page (Some ''5'') ''TD''
          ''https://cahier-de-prepa.fr/mp/docs?rep=5'' init_state))
   \<and> repo_mapping (fst (save_page example_world logged_out_page (Some ''5'') ''TD''
          ''https://cahier-de-prepa.fr/mp/docs?rep=5'' init_state)) ''5'' = None
   \<and> output_dir (fst (save_page example_world logged_out_page (Some ''5'') ''TD''
          ''https://cahier-de-prepa.fr/mp/docs?rep=5'' init_state)) ''docs_rep_5.html'' = None"
  by (simp add: save_page_def truthy_def logged_out_page_def init_state_def Let_def sublist_code)

text \<open>
  Claim C2 (amended). A directory with a non-empty identifier \<open>d\<close>, not yet visited, is put
  in \<open>visited_repos\<close> when \<open>save_page\<close> starts on it, before its page is captured. When the
  save goes through, the page is written to \<open>docs_rep_d.html\<close> and the entry of \<open>d\<close> is
  recorded in \<open>repo_mapping\<close>; when it aborts, which it does on a page that is not logged in,
  \<open>d\<close> is in the set all the same, nothing is written and nothing recorded. Either way
  every identifier with an entry in \<open>repo_mapping\<close> is in \<open>visited_repos\<close>.
\<close>

theorem save_page_marks_first:
  assumes "d \<noteq> []" and "d \<notin> visited_repos s"
  shows "d \<in> visited_repos (fst (save_page w pg (Some d) t url s))
    \<and> (snd (save_page w pg (Some d) t url s) = None \<longrightarrow>
          repo_mapping (fst (save_page w pg (Some d) t url s)) = repo_mapping s
        \<and> output_dir (fst (save_page w pg (Some d) t url s)) = output_dir s
        \<and> events (fst (save_page w pg (Some d) t url s)) = events s)
    \<and> (snd (save_page w pg (Some d) t url s) \<noteq> None \<longrightarrow>
          snd (save_page w pg (Some d) t url s) = Some (repo_filename d)
        \<and> output_dir (fst (save_page w pg (Some d) t url s)) (repo_filename d) = Some (page_source pg)
        \<and> events (fst (save_page w pg (Some d) t url s)) = events s @ [WriteFile (repo_filename d)]
        \<and> map_option fichier (repo_mapping (fst (save_page w pg (Some d) t url s)) d)
            = Some (repo_filename d))
    \<and> (sublist ''icon-connexion'' (page_source pg) \<and> \<not> sublist ''icon-deconnexion'' (page_source pg)
         \<longrightarrow> snd (save_page w pg (Some d) t url s) = None)
    \<and> ((\<forall>k. repo_mapping s k \<noteq> None \<longrightarrow> k \<in> visited_repos s) \<longrightarrow>
        (\<forall>k. repo_mapping (fst (save_page w pg (Some d) t url s)) k \<noteq> None
              \<longrightarrow> k \<in> visited_repos (fst (save_page w pg (Some d) t url s))))"
proof -
  have lo: "sublist ''icon-connexion'' (page_source pg) \<and> \<not> sublist ''icon-deconnexion'' (page_source pg)
         \<longrightarrow> snd (save_page w pg (Some d) t url s) = None"
    using assms by (simp add: save_page_def truthy_def Let_def)
  show ?thesis
  proof (cases rule: save_page_repo_cases [of d s w pg t url, OF assms, case_names aborted saved])
    case aborted
    with lo show ?thesis by simp
  next
    case saved
    with lo show ?thesis by simp
  qed
qed

theorem save_page_marks_first_witness:
  "''5'' \<in> visited_repos (fst (save_page example_world
       (example_page ''https://cahier-de-prepa.fr/mp/docs?rep=5'') (Some ''5'') ''TD''
       ''https://cahier-de-prepa.fr/mp/docs?rep=5'' init_state))
   \<and> snd (save_page example_world
       (example_page ''https://cahier-de-prepa.fr/mp/docs?rep=5'') (Some ''5'') ''TD''
       ''https://cahier-de-prepa.fr/mp/docs?rep=5'' init_state) = Some ''docs_rep_5.html''
   \<and> map_option fichier (repo_mapping (fst (save_page example_world
       (example_page ''https://cahier-de-prepa.fr/mp/docs?rep=5'') (Some ''5'') ''TD''
       ''https://cahier-de-prepa.fr/mp/docs?rep=5'' init_state)) ''5'') = Some ''docs_rep_5.html''"
proof -
  have a: "''5'' \<noteq> []" "''5'' \<notin> visited_repos init_state" by (simp_all add: init_state_def)
  have b: "snd (save_page example_world
       (example_page ''https://cahier-de-prepa.fr/mp/docs?rep=5'') (Some ''5'') ''TD''
       ''https://cahier-de-prepa.fr/mp/docs?rep=5'' init_state) \<noteq> None"
    by (simp add: save_page_def truthy_def example_page_def example_world_simps Let_def sublist_code init_state_def)
  note t = save_page_marks_first [OF a, where w = example_world
      and pg = "example_page ''https://cahier-de-prepa.fr/mp/docs?rep=5''" and t = "''TD''"
      and url = "''https://cahier-de-prepa.fr/mp/docs?rep=5''"]
  note t [THEN conjunct1] t [THEN conjunct2, THEN conjunct2, THEN conjunct1, THEN mp, OF b]
  then show ?thesis by (simp add: repo_filename_def)
qed

lemma part_dl_simps:
  "before_files part_dl = [''/dl/old.txt'']" "before_time part_dl = 100"
  "get_error part_dl = None"
  "polls part_dl 0 = [(''/dl/old.txt'', 50), (''/dl/cours.pdf.part'', 101)]"
  by (simp_all add: part_dl_def)

lemma part_world_simps:
  "base_url part_world = ''https://cahier-de-prepa.fr/mp/''" "test_mode part_world = False"
  "download_env part_world tr f = part_dl"
  by (simp_all add: part_world_def example_world_def)

lemma part_find: "find_new_file part_dl 30 0 None = Some ''/dl/cours.pdf.part''"
proof -
  have n: "new_entries part_dl 0 = [(''/dl/cours.pdf.part'', 101)]"
    by (simp add: new_entries_def part_dl_simps)
  have "find_new_file part_dl (Suc 29) 0 None = Some (fst (newest (new_entries part_dl 0)))"
    by (rule find_new_file_first) (simp_all add: n newest_def part_dl_simps)
  then show ?thesis by (simp add: n newest_def)
qed

lemma part_suffix: "path_suffix ''/dl/cours.pdf.part'' = ''.part''"
  by (simp add: path_suffix_def path_name_def rfind_def py_split.simps)

text \<open>
  Claim C8. When the new entry selected in the download directory carries the suffix
  \<open>.part\<close>, the download is to succeed if the marker goes away within the wait budget. The
  code waits but never looks at the directory again: with \<open>cours.pdf.part\<close> at the first
  poll and the finished \<open>cours.pdf\<close> from the second poll on, the attempt still fails as an
  incomplete download, and no entry is made in \<open>file_mapping\<close>.
\<close>

theorem part_marker_never_rechecked:
  "download_file part_world ''F1'' ''Cours'' ''Maths'' init_state =
     (init_state\<lparr>events := [DriverGet ''https://cahier-de-prepa.fr/mp/download?id=F1''],
                  failed_files := [(''F1'', ''Cours'', Incomplete)]\<rparr>, False)"
  by (simp add: download_file_def try_download_def part_world_simps part_dl_simps part_find
        part_suffix Let_def download_url_def init_state_def)

lemma silent_simps:
  "test_mode silent_world = False" "base_url silent_world = ''https://cahier-de-prepa.fr/mp/''"
  "download_env silent_world tr f = silent_dl" "get_error silent_dl = None"
  "new_entries silent_dl i = []"
  by (simp_all add: silent_world_def example_world_def silent_dl_def new_entries_def)

text \<open>
  Claim C9. When the download is attempted and no new entry appears in the download
  directory at any of the 30 polls, \<open>download_file\<close> returns \<open>False\<close>, appends the failure
  (identifier, title, reason) to \<open>failed_files\<close>, leaves \<open>file_mapping\<close> as it was, and the
  loop over the files of the page goes on with the next file.
\<close>

theorem no_new_file_failure:
  assumes "\<not> (test_mode w \<and> downloaded_files_count s \<ge> TEST_MAX_FILES)"
    and "get_error (download_env w (events s) file_id) = None"
    and "\<forall>i<30. new_entries (download_env w (events s) file_id) i = []"
  shows "download_file w file_id title repo_name s =
           (s\<lparr>events := events s @ [DriverGet (download_url w file_id)],
              failed_files := failed_files s @ [(file_id, title, NoNewFile)]\<rparr>, False)
    \<and> file_mapping (fst (download_file w file_id title repo_name s)) = file_mapping s
    \<and> (sublist ''download?id='' href \<and> param_value ''id='' href = file_id \<and> py_strip tx = title
          \<longrightarrow> download_docs w repo_name ((Some href, tx) # files) s =
              download_docs w repo_name files
                (s\<lparr>events := events s @ [DriverGet (download_url w file_id)],
                   failed_files := failed_files s @ [(file_id, title, NoNewFile)]\<rparr>))"
proof -
  let ?e = "download_env w (events s) file_id"
  from assms(3) have "\<forall>i<30. new_entries ?e (0 + i) = []" by simp
  then have f: "find_new_file ?e 30 0 None = None" by (rule find_new_file_none)
  have t: "try_download ?e file_id title repo_name
             (s\<lparr>events := events s @ [DriverGet (download_url w file_id)]\<rparr>)
           = (s\<lparr>events := events s @ [DriverGet (download_url w file_id)]\<rparr>, Some NoNewFile)"
    by (simp add: try_download_def assms(2) f)
  from assms(1) have d: "download_file w file_id title repo_name s =
           (s\<lparr>events := events s @ [DriverGet (download_url w file_id)],
              failed_files := failed_files s @ [(file_id, title, NoNewFile)]\<rparr>, False)"
    by (simp only: download_file_def if_False) (simp add: Let_def t)
  then show ?thesis by simp
qed

theorem no_new_file_failure_witness:
  "download_file silent_world ''F7'' ''Sujet'' ''Maths'' init_state =
     (init_state\<lparr>events := events init_state @ [DriverGet (download_url silent_world ''F7'')],
                  failed_files := failed_files init_state @ [(''F7'', ''Sujet'', NoNewFile)]\<rparr>, False)
   \<and> file_mapping (fst (download_file silent_world ''F7'' ''Sujet'' ''Maths'' init_state))
       = file_mapping init_state
   \<and> download_docs silent_world ''Maths''
        [(Some ''download?id=F7'', ''Sujet''), (Some ''download?id=F8'', ''Corrige'')] init_state
      = download_docs silent_world ''Maths'' [(Some ''download?id=F8'', ''Corrige'')]
         (init_state\<lparr>events := events init_state @ [DriverGet (download_url silent_world ''F7'')],
                      failed_files := failed_files init_state @ [(''F7'', ''Sujet'', NoNewFile)]\<rparr>)"
proof -
  have a: "\<not> (test_mode silent_world \<and> downloaded_files_count init_state \<ge> TEST_MAX_FILES)"
    by (simp add: silent_simps)
  have b: "get_error (download_env silent_world (events init_state) ''F7'') = None"
    by (simp add: silent_simps)
  have c: "\<forall>i<30. new_entries (download_env silent_world (events init_state) ''F7'') i = []"
    by (simp add: silent_simps)
  have h: "sublist ''download?id='' ''download?id=F7'' \<and> param_value ''id='' ''download?id=F7'' = ''F7''
           \<and> py_strip ''Sujet'' = ''Sujet''"
    by (simp add: example_params example_strip)
  note t = no_new_file_failure [OF a b c, where title = "''Sujet''" and repo_name = "''Maths''"
      and href = "''download?id=F7''" and tx = "''Sujet''"
      and files = "[(Some ''download?id=F8'', ''Corrige'')]"]
  note t [THEN conjunct1] t [THEN conjunct2, THEN conjunct1]
    t [THEN conjunct2, THEN conjunct2, THEN mp, OF h]
  then show ?thesis by (intro conjI)
qed

lemma is_space_space: "is_space CHR '' ''"
  by (simp add: is_space_def)
























end
